theory Spec2Isabelle
  imports Main
begin

section \<open>Python exceptions as values\<close>

text \<open>
  Every \<^verbatim>\<open>raise\<close> of the modelled Python code is a value of this type; a function that
  may raise returns \<open>py_error + 'a\<close>, with \<open>Inl\<close> for the exception.
\<close>

datatype py_error =
    ConnectionError
  | ValueError
  | KeyError
  | AttributeError
  | UnboundLocalError
  | OverflowError
  | RuntimeError string
  | HomeAssistantError string
  | OtherError string

section \<open>homeassistant/remote.py: the remote state machine\<close>

text \<open>
  \<^verbatim>\<open>ha.State\<close> lives in \<^verbatim>\<open>homeassistant/__init__.py\<close>, which is not among the
  sources. Only its \<^verbatim>\<open>state\<close> attribute is read by \<^verbatim>\<open>remote.py\<close>; the other
  fields follow the data model of the specification.
\<close>

record State =
  entity_id :: string
  state :: string
  attributes :: "(string \<times> string) list"
  last_changed :: string

datatype json =
    JNull
  | JBool bool
  | JNum int
  | JStr string
  | JList "json list"
  | JDict "(string \<times> json) list"

text \<open>
  A \<^verbatim>\<open>requests\<close> response: \<^verbatim>\<open>req.status_code\<close>, \<^verbatim>\<open>req.text\<close> and the outcome of
  \<^verbatim>\<open>req.json()\<close>, which is \<open>None\<close> where \<^verbatim>\<open>req.json()\<close> raises \<^verbatim>\<open>ValueError\<close>.
\<close>

record response =
  status_code :: int
  resp_text :: string
  json_body :: "json option"

text \<open>
  The remote \<^verbatim>\<open>StateMachine\<close> object. What lies outside \<^verbatim>\<open>remote.py\<close> is a field:
  \<^item> \<open>requests\<close>: what \<^verbatim>\<open>requests.get\<close> / \<^verbatim>\<open>requests.request\<close> do for a method and a
    path (the server and the network), either an exception or a response;
  \<^item> \<open>url_api_states_entity\<close>: \<^verbatim>\<open>hah.URL_API_STATES_ENTITY.format\<close>;
  \<^item> \<open>from_dict\<close>: \<^verbatim>\<open>ha.State.from_dict\<close>, which may raise, return \<^verbatim>\<open>None\<close> or
    return a \<^verbatim>\<open>State\<close>.
\<close>

record remote =
  requests :: "string \<Rightarrow> string \<Rightarrow> py_error + response"
  url_api_states_entity :: "string \<Rightarrow> string"
  from_dict :: "json \<Rightarrow> py_error + State option"

definition METHOD_GET :: string where
  "METHOD_GET = ''get''"

definition METHOD_POST :: string where
  "METHOD_POST = ''post''"

text \<open>
  \<^verbatim>\<open>_call_api\<close>: a \<^verbatim>\<open>requests.exceptions.ConnectionError\<close> becomes
  \<^verbatim>\<open>HomeAssistantError("Error connecting to server")\<close>; any other exception passes.
\<close>

definition call_api :: "remote \<Rightarrow> string \<Rightarrow> string \<Rightarrow> py_error + response" where
  "call_api sm method path =
     (case requests sm method path of
        Inl ConnectionError \<Rightarrow> Inl (HomeAssistantError ''Error connecting to server'')
      | Inl e \<Rightarrow> Inl e
      | Inr req \<Rightarrow> Inr req)"

text \<open>
  The three \<^verbatim>\<open>except\<close> clauses of \<^verbatim>\<open>get_state\<close>, in the order of the source. The
  \<^verbatim>\<open>ValueError\<close> and \<^verbatim>\<open>KeyError\<close> handlers format \<^verbatim>\<open>req.text\<close>; where the exception
  came out of \<^verbatim>\<open>_call_api\<close> itself, \<^verbatim>\<open>req\<close> is not bound yet.
\<close>

definition get_state_except :: "response option \<Rightarrow> py_error \<Rightarrow> py_error + State option" where
  "get_state_except req e =
     (case e of
        ConnectionError \<Rightarrow> Inl (HomeAssistantError ''Error connecting to server'')
      | ValueError \<Rightarrow>
          (case req of
             None \<Rightarrow> Inl UnboundLocalError
           | Some r \<Rightarrow> Inl (HomeAssistantError (''Got unexpected result: '' @ resp_text r)))
      | KeyError \<Rightarrow>
          (case req of
             None \<Rightarrow> Inl UnboundLocalError
           | Some r \<Rightarrow> Inl (HomeAssistantError (''Got unexpected result (2): '' @ resp_text r)))
      | _ \<Rightarrow> Inl e)"

definition get_state :: "remote \<Rightarrow> string \<Rightarrow> py_error + State option" where
  "get_state sm eid =
     (case call_api sm METHOD_GET (url_api_states_entity sm eid) of
        Inl e \<Rightarrow> get_state_except None e
      | Inr req \<Rightarrow>
          if status_code req = 200 then
            (case json_body req of
               None \<Rightarrow> get_state_except (Some req) ValueError
             | Some data \<Rightarrow>
                 (case from_dict sm data of
                    Inl e \<Rightarrow> get_state_except (Some req) e
                  | Inr st \<Rightarrow> Inr st))
          else if status_code req = 422 then Inr None
          else get_state_except (Some req)
                 (HomeAssistantError (''Got unexpected result (3): '' @ resp_text req @ ''.'')))"

text \<open>
  \<^verbatim>\<open>is_state\<close>: \<^verbatim>\<open>None.state\<close> raises \<^verbatim>\<open>AttributeError\<close>, which the \<^verbatim>\<open>except\<close>
  clause turns into \<^verbatim>\<open>False\<close>; so does an \<^verbatim>\<open>AttributeError\<close> out of \<^verbatim>\<open>get_state\<close>.
\<close>

definition is_state :: "remote \<Rightarrow> string \<Rightarrow> string \<Rightarrow> py_error + bool" where
  "is_state sm eid s =
     (case get_state sm eid of
        Inl AttributeError \<Rightarrow> Inr False
      | Inl e \<Rightarrow> Inl e
      | Inr None \<Rightarrow> Inr False
      | Inr (Some st) \<Rightarrow> Inr (state st = s))"

text \<open>Concrete servers, used to run the definitions.\<close>

definition kitchen_state :: State where
  "kitchen_state =
     \<lparr>entity_id = ''light.kitchen'', state = ''on'', attributes = [],
      last_changed = ''12:00:00 01-01-2014''\<rparr>"

definition parse_kitchen :: "json \<Rightarrow> py_error + State option" where
  "parse_kitchen d =
     (case d of
        JDict kv \<Rightarrow>
          (case map_of kv ''state'' of
             Some (JStr s) \<Rightarrow> Inr (Some (kitchen_state\<lparr>state := s\<rparr>))
           | _ \<Rightarrow> Inl KeyError)
      | _ \<Rightarrow> Inl AttributeError)"

definition server :: "(py_error + response) \<Rightarrow> remote" where
  "server outcome =
     \<lparr>requests = (\<lambda>m p. outcome),
      url_api_states_entity = (\<lambda>e. ''/api/states/'' @ e),
      from_dict = parse_kitchen\<rparr>"

section \<open>homeassistant/util.py: ThreadPool\<close>

text \<open>
  A job is any Python object; \<^verbatim>\<open>self._quit_task = object()\<close> is a fresh object that
  equals no job a caller can pass, hence a constructor of its own.
\<close>

datatype 'a job = Job 'a | QuitTask

text \<open>
  The fields of \<^verbatim>\<open>ThreadPool\<close>. \<open>work_queue\<close> holds the \<^verbatim>\<open>PriorityQueueItem\<close>s
  as pairs of priority and job, in the order they were put. \<open>busy_callback\<close> says
  whether the callback is not \<^verbatim>\<open>None\<close>. \<open>current_jobs\<close> holds the jobs the workers
  have in hand (the start time that the source pairs with each job is read by nobody
  here and left out). Three fields are not in the source and record what happened:
  \<open>workers\<close> counts the worker threads that have not returned, \<open>handled\<close> lists the
  jobs \<^verbatim>\<open>job_handler\<close> was called on, \<open>busy_calls\<close> lists the arguments of every
  call of \<^verbatim>\<open>busy_callback\<close>.
\<close>

record 'a pool =
  work_queue :: "(int \<times> 'a job) list"
  current_jobs :: "'a list"
  worker_count :: int
  busy_callback :: bool
  busy_warning_limit :: int
  running :: bool
  workers :: nat
  handled :: "'a list"
  busy_calls :: "('a list \<times> nat) list"

text \<open>\<^verbatim>\<open>ThreadPool.__init__\<close>; \<^verbatim>\<open>range(worker_count)\<close> starts no worker for a negative count.\<close>

definition ThreadPool_init :: "int \<Rightarrow> bool \<Rightarrow> 'a pool" where
  "ThreadPool_init wc cb =
     \<lparr>work_queue = [], current_jobs = [], worker_count = wc, busy_callback = cb,
      busy_warning_limit = wc ^ 2, running = True, workers = nat wc,
      handled = [], busy_calls = []\<rparr>"

definition qsize :: "'a pool \<Rightarrow> nat" where
  "qsize p = length (work_queue p)"

text \<open>
  \<^verbatim>\<open>ThreadPool.add_job\<close>. The \<^verbatim>\<open>raise\<close> comes before any change of the pool.
\<close>

definition add_job :: "int \<Rightarrow> 'a job \<Rightarrow> 'a pool \<Rightarrow> py_error + 'a pool" where
  "add_job priority j p =
     (if \<not> running p then Inl (RuntimeError ''ThreadPool not running'')
      else
        let p1 = p\<lparr>work_queue := work_queue p @ [(priority, j)]\<rparr> in
        if int (qsize p1) > busy_warning_limit p1 \<and> busy_callback p1 then
          let p2 = p1\<lparr>busy_warning_limit := busy_warning_limit p1 * 2\<rparr> in
          Inr (p2\<lparr>busy_calls := busy_calls p2 @ [(current_jobs p2, qsize p2)]\<rparr>)
        else Inr p1)"

text \<open>
  \<^verbatim>\<open>PriorityQueue.get\<close>: takes out an item of least priority (the earliest put, among
  equals); \<open>None\<close> on an empty queue, where the call blocks.
\<close>

fun queue_get :: "(int \<times> 'b) list \<Rightarrow> ((int \<times> 'b) \<times> (int \<times> 'b) list) option" where
  "queue_get [] = None"
| "queue_get (x # xs) =
     (case queue_get xs of
        None \<Rightarrow> Some (x, [])
      | Some (y, ys) \<Rightarrow> if fst y < fst x then Some (y, x # ys) else Some (x, xs))"

text \<open>
  \<^verbatim>\<open>_threadpool_worker\<close>, in two steps. \<open>worker_take\<close>: an idle worker gets the next
  item; on the quit task it returns, otherwise it appends the job to \<open>current_jobs\<close>.
  \<open>worker_finish\<close>: \<^verbatim>\<open>job_handler(job)\<close> returns and the job leaves \<open>current_jobs\<close>.
\<close>

definition worker_take :: "'a pool \<Rightarrow> 'a pool" where
  "worker_take p =
     (if length (current_jobs p) < workers p then
        (case queue_get (work_queue p) of
           None \<Rightarrow> p
         | Some ((pr, QuitTask), rest) \<Rightarrow> p\<lparr>work_queue := rest, workers := workers p - 1\<rparr>
         | Some ((pr, Job j), rest) \<Rightarrow>
             p\<lparr>work_queue := rest, current_jobs := current_jobs p @ [j]\<rparr>)
      else p)"

definition worker_finish :: "'a \<Rightarrow> 'a pool \<Rightarrow> 'a pool" where
  "worker_finish j p =
     (if j \<in> set (current_jobs p) then
        p\<lparr>handled := handled p @ [j], current_jobs := remove1 j (current_jobs p)\<rparr>
      else p)"







text \<open>
  What happens to a pool between its creation and \<^verbatim>\<open>stop\<close>: callers add jobs (a call
  that raises leaves the pool as it was) and workers take and finish them, in any order.
\<close>

datatype 'a event = AddJob int 'a | WorkerTake | WorkerFinish 'a

definition exec_event :: "'a event \<Rightarrow> 'a pool \<Rightarrow> 'a pool" where
  "exec_event e p =
     (case e of
        AddJob priority j \<Rightarrow>
          (case add_job priority (Job j) p of Inl err \<Rightarrow> p | Inr p' \<Rightarrow> p')
      | WorkerTake \<Rightarrow> worker_take p
      | WorkerFinish j \<Rightarrow> worker_finish j p)"

definition run :: "'a event list \<Rightarrow> 'a pool \<Rightarrow> 'a pool" where
  "run evs p = foldl (\<lambda>q e. exec_event e q) p evs"



text \<open>
  The invariant of the warning limit: it is the initial limit doubled once per call of
  the callback, and the \<open>i\<close>-th call saw a queue longer than the limit doubled
  \<open>i\<close> times.
\<close>

definition watermark_inv :: "int \<Rightarrow> 'a pool \<Rightarrow> bool" where
  "watermark_inv w p \<longleftrightarrow>
     busy_warning_limit p = w ^ 2 * 2 ^ length (busy_calls p)
     \<and> (\<forall>i < length (busy_calls p). w ^ 2 * 2 ^ i < int (snd (busy_calls p ! i)))"

section \<open>Dates and times\<close>

text \<open>
  A naive \<^verbatim>\<open>datetime\<close>: the date as its proleptic Gregorian ordinal
  (\<^verbatim>\<open>date.toordinal()\<close>, day 1 is 0001-01-01) and the time of day in its four fields.
  \<open>to_us\<close> is the position on the time line in microseconds; the difference of two
  datetimes is a \<^verbatim>\<open>timedelta\<close>, here its length in microseconds.
\<close>

record datetime =
  ordinal :: int
  hour :: int
  minute :: int
  second :: int
  microsecond :: int

definition to_us :: "datetime \<Rightarrow> int" where
  "to_us t = (((ordinal t * 24 + hour t) * 60 + minute t) * 60 + second t) * 1000000
             + microsecond t"

text \<open>
  \<^verbatim>\<open>datetime.now()\<close> is read several times in one call; the \<open>k\<close>-th reading of a call
  (from 0) is \<open>clock k\<close>, and the functions below pass on how many readings were taken.
\<close>

type_synonym clock = "nat \<Rightarrow> datetime"

section \<open>app/DeviceTracker.py\<close>

definition STATE_DEVICE_NOT_HOME :: string where
  "STATE_DEVICE_NOT_HOME = ''device_not_home''"

definition STATE_DEVICE_HOME :: string where
  "STATE_DEVICE_HOME = ''device_home''"

definition STATE_DEVICE_DEFAULT :: string where
  "STATE_DEVICE_DEFAULT = STATE_DEVICE_NOT_HOME"

text \<open>\<^verbatim>\<open>timedelta(seconds=70)\<close>, in microseconds.\<close>

definition TIME_SPAN_FOR_ERROR_IN_SCANNING :: int where
  "TIME_SPAN_FOR_ERROR_IN_SCANNING = 70 * 1000000"

definition STATE_CATEGORY_ALL_DEVICES :: string where
  "STATE_CATEGORY_ALL_DEVICES = ''device.alldevices''"

text \<open>\<^verbatim>\<open>STATE_CATEGORY_DEVICE_FORMAT.format(name)\<close>\<close>

definition STATE_CATEGORY_DEVICE_FORMAT :: "string \<Rightarrow> string" where
  "STATE_CATEGORY_DEVICE_FORMAT n = ''device.'' @ n"

text \<open>\<^verbatim>\<open>datetime(1990, 1, 1)\<close>: \<^verbatim>\<open>date(1990, 1, 1).toordinal()\<close> is 726468.\<close>

definition default_last_seen :: datetime where
  "default_last_seen = \<lparr>ordinal = 726468, hour = 0, minute = 0, second = 0, microsecond = 0\<rparr>"

text \<open>
  Modelled from the spec: the state machine (\<^verbatim>\<open>app/StateMachine.py\<close> is not among the
  sources). The specification's State Store maps an entity identifier to its current
  state, \<open>get\<close> returns the state or none, and \<open>set\<close> replaces the stored record,
  creating it when the entity is new, and publishes a change event on every call. Of a
  record the tracker reads only \<^verbatim>\<open>.state\<close>, so \<open>states\<close> maps a category to that
  string; \<open>set_calls\<close> lists the \<open>set\<close> calls in order, one entry per event published.
\<close>

record StateMachine =
  states :: "string \<rightharpoonup> string"
  set_calls :: "(string \<times> string) list"

definition statemachine_add_category :: "string \<Rightarrow> string \<Rightarrow> StateMachine \<Rightarrow> StateMachine" where
  "statemachine_add_category c s sm = sm\<lparr>states := (states sm)(c \<mapsto> s)\<rparr>"

definition statemachine_set_state :: "string \<Rightarrow> string \<Rightarrow> StateMachine \<Rightarrow> StateMachine" where
  "statemachine_set_state c s sm =
     sm\<lparr>states := (states sm)(c \<mapsto> s), set_calls := set_calls sm @ [(c, s)]\<rparr>"

definition statemachine_get_state :: "StateMachine \<Rightarrow> string \<Rightarrow> string option" where
  "statemachine_get_state sm c = states sm c"

text \<open>
  An entry of \<^verbatim>\<open>self.devices_to_track\<close>, and the tracker. The dict is an association
  list with distinct keys, in the order the dict is iterated. The file is Python 2:
  \<^verbatim>\<open>self.devices_to_track.keys()\<close> is a new list, from which \<^verbatim>\<open>remove\<close> takes an element.
\<close>

record device =
  name :: string
  last_seen :: datetime
  category :: string

record tracker =
  devices_to_track :: "(string \<times> device) list"
  all_devices_state :: string
  statemachine :: StateMachine

text \<open>
  \<^verbatim>\<open>DeviceTracker.__init__\<close>, from the dict \<^verbatim>\<open>device_scanner.get_devices_to_track()\<close>
  (device id to name) and the state machine. The registration with
  \<^verbatim>\<open>track_time_change\<close> is the caller of \<open>update_devices\<close> and has no part here.
\<close>

definition DeviceTracker_init :: "(string \<times> string) list \<Rightarrow> StateMachine \<Rightarrow> tracker" where
  "DeviceTracker_init temp_devices_to_track sm =
     (let devs = map (\<lambda>(dev, n). (dev, \<lparr>name = n, last_seen = default_last_seen,
                       category = STATE_CATEGORY_DEVICE_FORMAT n\<rparr>)) temp_devices_to_track;
          sm1 = statemachine_add_category STATE_CATEGORY_ALL_DEVICES STATE_DEVICE_DEFAULT sm;
          sm2 = fold (\<lambda>(dev, info). statemachine_add_category (category info)
                       STATE_DEVICE_DEFAULT) devs sm1
      in \<lparr>devices_to_track = devs, all_devices_state = STATE_DEVICE_DEFAULT,
          statemachine = sm2\<rparr>)"

text \<open>\<^verbatim>\<open>self.devices_to_track[device]['last_seen'] = t\<close>\<close>

definition set_last_seen :: "string \<Rightarrow> datetime \<Rightarrow> (string \<times> device) list \<Rightarrow> (string \<times> device) list" where
  "set_last_seen dev t devs =
     map (\<lambda>(d, info). if d = dev then (d, info\<lparr>last_seen := t\<rparr>) else (d, info)) devs"

text \<open>
  \<^verbatim>\<open>DeviceTracker.set_state\<close>; \<^verbatim>\<open>self.devices_to_track[device]\<close> raises \<^verbatim>\<open>KeyError\<close> for
  a device that is not tracked. The second component counts the clock readings.
\<close>

definition set_state :: "clock \<Rightarrow> string \<Rightarrow> string \<Rightarrow> tracker \<times> nat \<Rightarrow> py_error + tracker \<times> nat" where
  "set_state clock dev st = (\<lambda>(tr, k).
     case map_of (devices_to_track tr) dev of
       None \<Rightarrow> Inl KeyError
     | Some info \<Rightarrow>
         let (tr1, k1) =
               (if st = STATE_DEVICE_HOME
                then (tr\<lparr>devices_to_track := set_last_seen dev (clock k) (devices_to_track tr)\<rparr>,
                      Suc k)
                else (tr, k))
         in Inr (tr1\<lparr>statemachine := statemachine_set_state (category info) st (statemachine tr1)\<rparr>,
                 k1))"

text \<open>
  The first loop of \<open>update_devices\<close>, over \<^verbatim>\<open>found_devices\<close>; the state is the list
  \<^verbatim>\<open>temp_tracking_devices\<close>, the tracker and the count of clock readings.
\<close>

fun found_loop :: "clock \<Rightarrow> string list \<Rightarrow> string list \<times> tracker \<times> nat
    \<Rightarrow> py_error + string list \<times> tracker \<times> nat" where
  "found_loop clock [] s = Inr s"
| "found_loop clock (dev # found) (temp, tr, k) =
     (if dev \<in> set temp then
        (case set_state clock dev STATE_DEVICE_HOME (tr, k) of
           Inl e \<Rightarrow> Inl e
         | Inr (tr', k') \<Rightarrow> found_loop clock found (remove1 dev temp, tr', k'))
      else found_loop clock found (temp, tr, k))"

text \<open>
  The second loop, over what is left of \<^verbatim>\<open>temp_tracking_devices\<close>.
  \<^verbatim>\<open>get_state(...)\<close> is \<^verbatim>\<open>None\<close> for a category the state machine does not have, and
  \<^verbatim>\<open>.state\<close> then raises \<^verbatim>\<open>AttributeError\<close>. \<^verbatim>\<open>and\<close> reads the clock only when the
  state is home.
\<close>

fun not_found_loop :: "clock \<Rightarrow> string list \<Rightarrow> tracker \<times> nat \<Rightarrow> py_error + tracker \<times> nat" where
  "not_found_loop clock [] s = Inr s"
| "not_found_loop clock (dev # temp) (tr, k) =
     (case map_of (devices_to_track tr) dev of
        None \<Rightarrow> Inl KeyError
      | Some info \<Rightarrow>
          (case statemachine_get_state (statemachine tr) (category info) of
             None \<Rightarrow> Inl AttributeError
           | Some s \<Rightarrow>
               if s = STATE_DEVICE_HOME then
                 (if to_us (clock k) - to_us (last_seen info) > TIME_SPAN_FOR_ERROR_IN_SCANNING
                  then
                    (case set_state clock dev STATE_DEVICE_NOT_HOME (tr, Suc k) of
                       Inl e \<Rightarrow> Inl e
                     | Inr s' \<Rightarrow> not_found_loop clock temp s')
                  else not_found_loop clock temp (tr, Suc k))
               else not_found_loop clock temp (tr, k)))"

text \<open>
  \<^verbatim>\<open>states_of_devices\<close>, the list comprehension over \<^verbatim>\<open>self.devices_to_track\<close>.
\<close>

fun states_of_devices :: "StateMachine \<Rightarrow> (string \<times> device) list \<Rightarrow> py_error + string list" where
  "states_of_devices sm [] = Inr []"
| "states_of_devices sm ((dev, info) # devs) =
     (case statemachine_get_state sm (category info) of
        None \<Rightarrow> Inl AttributeError
      | Some s \<Rightarrow>
          (case states_of_devices sm devs of
             Inl e \<Rightarrow> Inl e
           | Inr ss \<Rightarrow> Inr (s # ss)))"

text \<open>\<^verbatim>\<open>DeviceTracker.update_devices\<close>\<close>

definition update_devices :: "clock \<Rightarrow> string list \<Rightarrow> tracker \<Rightarrow> py_error + tracker" where
  "update_devices clock found_devices tr =
     (case found_loop clock found_devices (map fst (devices_to_track tr), tr, 0) of
        Inl e \<Rightarrow> Inl e
      | Inr (temp_tracking_devices, tr1, k1) \<Rightarrow>
          (case not_found_loop clock temp_tracking_devices (tr1, k1) of
             Inl e \<Rightarrow> Inl e
           | Inr (tr2, k2) \<Rightarrow>
               (case states_of_devices (statemachine tr2) (devices_to_track tr2) of
                  Inl e \<Rightarrow> Inl e
                | Inr ss \<Rightarrow>
                    let tr3 = tr2\<lparr>all_devices_state :=
                                (if STATE_DEVICE_HOME \<in> set ss then STATE_DEVICE_HOME
                                 else STATE_DEVICE_NOT_HOME)\<rparr>
                    in Inr (tr3\<lparr>statemachine :=
                                statemachine_set_state STATE_CATEGORY_ALL_DEVICES
                                  (all_devices_state tr3) (statemachine tr3)\<rparr>))))"

text \<open>
  One scan cycle after another: each cycle has its own clock readings and scan result;
  an exception ends the run.
\<close>

fun cycles :: "(clock \<times> string list) list \<Rightarrow> tracker \<Rightarrow> py_error + tracker" where
  "cycles [] tr = Inr tr"
| "cycles ((clock, found) # cs) tr =
     (case update_devices clock found tr of
        Inl e \<Rightarrow> Inl e
      | Inr tr' \<Rightarrow> cycles cs tr')"

text \<open>
  The tracker is as \<^verbatim>\<open>__init__\<close> leaves it: the keys of the dict are distinct and every
  category is in the state machine.
\<close>

definition tracker_ok :: "tracker \<Rightarrow> bool" where
  "tracker_ok tr \<longleftrightarrow>
     distinct (map fst (devices_to_track tr))
     \<and> (\<forall>(dev, info) \<in> set (devices_to_track tr).
          states (statemachine tr) (category info) \<noteq> None)"

text \<open>The entity state of a tracked device, and its \<^verbatim>\<open>last_seen\<close>.\<close>

definition device_state :: "tracker \<Rightarrow> string \<Rightarrow> string option" where
  "device_state tr dev =
     (case map_of (devices_to_track tr) dev of
        None \<Rightarrow> None
      | Some info \<Rightarrow> statemachine_get_state (statemachine tr) (category info))"

definition device_last_seen :: "tracker \<Rightarrow> string \<Rightarrow> datetime option" where
  "device_last_seen tr dev = map_option last_seen (map_of (devices_to_track tr) dev)"

text \<open>A clock that stands still at a number of seconds after midnight of 2014-01-01.\<close>

definition at_second :: "int \<Rightarrow> clock" where
  "at_second s = (\<lambda>k. \<lparr>ordinal = 735234, hour = s div 3600, minute = (s div 60) mod 60,
                        second = s mod 60, microsecond = 0\<rparr>)"

definition empty_statemachine :: StateMachine where
  "empty_statemachine = \<lparr>states = Map.empty, set_calls = []\<rparr>"

text \<open>What a run of cycles leaves of one device: its entity state and its \<^verbatim>\<open>last_seen\<close>.\<close>

definition device_state_after :: "(clock \<times> string list) list \<Rightarrow> tracker \<Rightarrow> string
    \<Rightarrow> py_error + string option" where
  "device_state_after cs tr dev =
     (case cycles cs tr of Inl e \<Rightarrow> Inl e | Inr tr' \<Rightarrow> Inr (device_state tr' dev))"

definition last_seen_after :: "(clock \<times> string list) list \<Rightarrow> tracker \<Rightarrow> string
    \<Rightarrow> py_error + datetime option" where
  "last_seen_after cs tr dev =
     (case cycles cs tr of Inl e \<Rightarrow> Inl e | Inr tr' \<Rightarrow> Inr (device_last_seen tr' dev))"

text \<open>The category of a device id, if it is tracked.\<close>

definition category_of :: "tracker \<Rightarrow> string \<Rightarrow> string option" where
  "category_of tr dev = map_option category (map_of (devices_to_track tr) dev)"

text \<open>Two trackers with the same devices, names and categories, in the same order.\<close>

definition same_devices :: "tracker \<Rightarrow> tracker \<Rightarrow> bool" where
  "same_devices tr tr' \<longleftrightarrow>
     map fst (devices_to_track tr') = map fst (devices_to_track tr)
     \<and> map (\<lambda>p. name (snd p)) (devices_to_track tr') = map (\<lambda>p. name (snd p)) (devices_to_track tr)
     \<and> map (\<lambda>p. category (snd p)) (devices_to_track tr') = map (\<lambda>p. category (snd p)) (devices_to_track tr)"

text \<open>
  The device has its category to itself: it is not \<^verbatim>\<open>device.alldevices\<close>, and no other
  tracked device has the same name and hence the same category.
\<close>

definition own_category :: "tracker \<Rightarrow> string \<Rightarrow> bool" where
  "own_category tr dev \<longleftrightarrow>
     category_of tr dev \<noteq> Some STATE_CATEGORY_ALL_DEVICES
     \<and> (\<forall>dev' \<in> fst ` set (devices_to_track tr).
          category_of tr dev' = category_of tr dev \<longrightarrow> dev' = dev)"

text \<open>A tracker whose one device has been seen at second 0 and is home.\<close>

definition phone_home_tracker :: tracker where
  "phone_home_tracker =
     \<lparr>devices_to_track =
        [(''aa'', \<lparr>name = ''phone'', last_seen = at_second 0 0, category = ''device.phone''\<rparr>)],
      all_devices_state = ''device_home'',
      statemachine =
        \<lparr>states = [''device.phone'' \<mapsto> ''device_home'', ''device.alldevices'' \<mapsto> ''device_home''],
         set_calls = []\<rparr>\<rparr>"

text \<open>Two devices that have the same name.\<close>

definition two_phones :: tracker where
  "two_phones = DeviceTracker_init [(''aa'', ''phone''), (''bb'', ''phone'')] empty_statemachine"

text \<open>Two devices with names of their own.\<close>

definition phone_and_laptop :: tracker where
  "phone_and_laptop =
     DeviceTracker_init [(''aa'', ''phone''), (''bb'', ''laptop'')] empty_statemachine"

text \<open>What \<open>set_state\<close> with \<^verbatim>\<open>STATE_DEVICE_HOME\<close> makes of the tracker, at clock reading \<open>k\<close>.\<close>

definition home_step :: "clock \<Rightarrow> string \<Rightarrow> device \<Rightarrow> tracker \<Rightarrow> nat \<Rightarrow> tracker" where
  "home_step clock dev info tr k =
     tr\<lparr>devices_to_track := set_last_seen dev (clock k) (devices_to_track tr),
        statemachine := statemachine_set_state (category info) STATE_DEVICE_HOME
                          (statemachine tr)\<rparr>"

text \<open>What \<open>set_state\<close> with \<^verbatim>\<open>STATE_DEVICE_NOT_HOME\<close> makes of the tracker.\<close>

definition away_step :: "device \<Rightarrow> tracker \<Rightarrow> tracker" where
  "away_step info tr =
     tr\<lparr>statemachine := statemachine_set_state (category info) STATE_DEVICE_NOT_HOME
                          (statemachine tr)\<rparr>"

text \<open>What the body of the second loop makes of the tracker and the count of readings, for a
  device whose entity state is \<open>s\<close>.\<close>

definition not_found_step :: "clock \<Rightarrow> device \<Rightarrow> string \<Rightarrow> tracker \<times> nat \<Rightarrow> tracker \<times> nat" where
  "not_found_step clock info s = (\<lambda>(tr, k).
     if s = STATE_DEVICE_HOME then
       (if to_us (clock k) - to_us (last_seen info) > TIME_SPAN_FOR_ERROR_IN_SCANNING
        then (away_step info tr, Suc k) else (tr, Suc k))
     else (tr, k))"

text \<open>Every category of the tracker is in the state machine.\<close>

definition registered :: "tracker \<Rightarrow> bool" where
  "registered tr \<longleftrightarrow>
     (\<forall>(dev, info) \<in> set (devices_to_track tr). states (statemachine tr) (category info) \<noteq> None)"

text \<open>The value of \<^verbatim>\<open>self.all_devices_state\<close> that the end of \<open>update_devices\<close> computes.\<close>

definition aggregate :: "tracker \<Rightarrow> string" where
  "aggregate tr =
     (if \<exists>(dev, info) \<in> set (devices_to_track tr).
           states (statemachine tr) (category info) = Some STATE_DEVICE_HOME
      then STATE_DEVICE_HOME else STATE_DEVICE_NOT_HOME)"

text \<open>The end of \<open>update_devices\<close>, after the two loops.\<close>

definition finish :: "tracker \<Rightarrow> tracker" where
  "finish tr =
     tr\<lparr>all_devices_state := aggregate tr,
        statemachine := statemachine_set_state STATE_CATEGORY_ALL_DEVICES (aggregate tr)
                          (statemachine tr)\<rparr>"

section \<open>homeassistant/components/scheduler/time.py\<close>

text \<open>
  The operations of \<^verbatim>\<open>datetime\<close> that \<^verbatim>\<open>TimeEventListener.schedule\<close> uses.
  \<^verbatim>\<open>replace\<close> raises \<^verbatim>\<open>ValueError\<close> for a field out of range. \<^verbatim>\<open><\<close> compares the
  fields in order. \<^verbatim>\<open>weekday()\<close> is \<^verbatim>\<open>(toordinal() + 6) % 7\<close>, Monday being 0. Adding
  \<^verbatim>\<open>timedelta(days=1)\<close> to a naive datetime moves the date by one day and keeps the time
  of day; it raises \<^verbatim>\<open>OverflowError\<close> beyond \<^verbatim>\<open>datetime.max\<close>, whose date 9999-12-31 has
  ordinal 3652059.
\<close>

definition datetime_replace :: "datetime \<Rightarrow> int \<Rightarrow> int \<Rightarrow> int \<Rightarrow> int \<Rightarrow> py_error + datetime" where
  "datetime_replace t h m s us =
     (if 0 \<le> h \<and> h < 24 \<and> 0 \<le> m \<and> m < 60 \<and> 0 \<le> s \<and> s < 60 \<and> 0 \<le> us \<and> us < 1000000
      then Inr (t\<lparr>hour := h, minute := m, second := s, microsecond := us\<rparr>)
      else Inl ValueError)"

definition datetime_less :: "datetime \<Rightarrow> datetime \<Rightarrow> bool" where
  "datetime_less a b \<longleftrightarrow>
     ordinal a < ordinal b \<or> (ordinal a = ordinal b \<and>
       (hour a < hour b \<or> (hour a = hour b \<and>
         (minute a < minute b \<or> (minute a = minute b \<and>
           (second a < second b \<or> (second a = second b \<and>
             microsecond a < microsecond b)))))))"

definition weekday :: "datetime \<Rightarrow> int" where
  "weekday t = (ordinal t + 6) mod 7"

definition MAXORDINAL :: int where
  "MAXORDINAL = 3652059"

definition add_one_day :: "datetime \<Rightarrow> py_error + datetime" where
  "add_one_day t =
     (if ordinal t + 1 > MAXORDINAL then Inl OverflowError
      else Inr (t\<lparr>ordinal := ordinal t + 1\<rparr>))"

text \<open>
  The fields of a \<^verbatim>\<open>TimeEventListener\<close> that \<^verbatim>\<open>schedule\<close> reads: \<^verbatim>\<open>self._hour\<close>,
  \<^verbatim>\<open>self._minute\<close>, \<^verbatim>\<open>self._second\<close>, as \<^verbatim>\<open>create\<close> passes them to \<^verbatim>\<open>__init__\<close>, and
  \<^verbatim>\<open>self._schedule.days\<close> (the class of the schedule is not among the sources; its
  \<^verbatim>\<open>days\<close> is the list in which \<^verbatim>\<open>weekday()\<close> is looked up).
\<close>

record TimeEventListener =
  listener_hour :: int
  listener_minute :: int
  listener_second :: int
  schedule_days :: "int list"

text \<open>
  The \<^verbatim>\<open>while\<close> loop of \<^verbatim>\<open>schedule\<close>. \<^verbatim>\<open>or\<close> reads the clock at every test, the
  \<open>k\<close>-th reading being \<open>clock k\<close>. The loop ends: each round moves \<open>next_time\<close>
  one day on, and past \<^verbatim>\<open>datetime.max\<close> the addition raises.
\<close>

function schedule_loop :: "clock \<Rightarrow> int list \<Rightarrow> datetime \<Rightarrow> nat \<Rightarrow> py_error + datetime" where
  "schedule_loop clock days next_time k =
     (if datetime_less next_time (clock k) \<or> weekday next_time \<notin> set days then
        (case add_one_day next_time of
           Inl e \<Rightarrow> Inl e
         | Inr t \<Rightarrow> schedule_loop clock days t (Suc k))
      else Inr next_time)"
  by pat_completeness auto
termination
  by (relation "measure (\<lambda>(clock, days, next_time, k). nat (MAXORDINAL + 1 - ordinal next_time))")
    (auto simp: add_one_day_def split: if_splits)

declare schedule_loop.simps [simp del]

text \<open>
  \<^verbatim>\<open>TimeEventListener.schedule\<close>. The result is the time that is passed to
  \<^verbatim>\<open>hass.track_point_in_time\<close>, which registers the one firing.
\<close>

definition schedule :: "TimeEventListener \<Rightarrow> clock \<Rightarrow> py_error + datetime" where
  "schedule l clock =
     (case datetime_replace (clock 0) (listener_hour l) (listener_minute l) (listener_second l) 0 of
        Inl e \<Rightarrow> Inl e
      | Inr next_time \<Rightarrow> schedule_loop clock (schedule_days l) next_time 1)"

text \<open>
  A clock that stands still: 2014-01-01 (ordinal 735234, a Wednesday) at 12:00:00; and a
  listener for 08:30:00 on Mondays and Fridays.
\<close>

definition wednesday_noon :: clock where
  "wednesday_noon = (\<lambda>k. \<lparr>ordinal = 735234, hour = 12, minute = 0, second = 0, microsecond = 0\<rparr>)"

definition monday_friday_0830 :: TimeEventListener where
  "monday_friday_0830 =
     \<lparr>listener_hour = 8, listener_minute = 30, listener_second = 0, schedule_days = [0, 4]\<rparr>"

text \<open>
  The \<open>i\<close>-th value of \<^verbatim>\<open>next_time\<close>: the configured time of day, \<open>i\<close> days after the
  day of ordinal \<open>o0\<close>.
\<close>

definition candidate :: "int \<Rightarrow> int \<Rightarrow> int \<Rightarrow> int \<Rightarrow> nat \<Rightarrow> datetime" where
  "candidate h m s o0 i =
     \<lparr>ordinal = o0 + int i, hour = h, minute = m, second = s, microsecond = 0\<rparr>"

text \<open>
  A datetime at the configured time of day, on a weekday of the schedule.
\<close>

definition matches :: "int \<Rightarrow> int \<Rightarrow> int \<Rightarrow> int list \<Rightarrow> datetime \<Rightarrow> bool" where
  "matches h m s days t \<longleftrightarrow>
     hour t = h \<and> minute t = m \<and> second t = s \<and> microsecond t = 0 \<and> weekday t \<in> set days"

section \<open>homeassistant/util.py: OrderedSet\<close>

text \<open>
  The nodes of the doubly linked list are Python lists \<^verbatim>\<open>[key, prev, next]\<close> that refer to
  one another, so they live in a store: \<open>heap\<close> maps an address to the node there, and
  \<open>fresh\<close> is the next address not yet in use. The sentinel \<^verbatim>\<open>self.end\<close> is at address
  0 and its key is \<^verbatim>\<open>None\<close>; the key of every other node is \<open>Some\<close> key.
  \<open>key_map\<close> is \<^verbatim>\<open>self.map\<close>, from a key to the address of its node.
\<close>

record 'k node =
  node_key :: "'k option"
  node_prev :: nat
  node_next :: nat

record 'k OrderedSet =
  heap :: "nat \<Rightarrow> 'k node"
  key_map :: "'k \<rightharpoonup> nat"
  fresh :: nat

text \<open>\<^verbatim>\<open>__init__\<close> without an iterable: \<^verbatim>\<open>end += [None, end, end]\<close>, \<^verbatim>\<open>self.map = {}\<close>.\<close>

definition OrderedSet_init :: "'k OrderedSet" where
  "OrderedSet_init =
     \<lparr>heap = (\<lambda>a. \<lparr>node_key = None, node_prev = 0, node_next = 0\<rparr>),
      key_map = Map.empty, fresh = 1\<rparr>"

text \<open>
  \<^verbatim>\<open>add\<close>. The chained assignment \<^verbatim>\<open>curr[2] = end[1] = self.map[key] = [key, curr, end]\<close>
  builds the new node and then assigns from left to right.
\<close>

definition add :: "'k \<Rightarrow> 'k OrderedSet \<Rightarrow> 'k OrderedSet" where
  "add k os =
     (if k \<in> dom (key_map os) then os
      else
        let curr = node_prev (heap os 0);
            n = fresh os;
            h1 = (heap os)(n := \<lparr>node_key = Some k, node_prev = curr, node_next = 0\<rparr>);
            h2 = h1(curr := (h1 curr)\<lparr>node_next := n\<rparr>);
            h3 = h2(0 := (h2 0)\<lparr>node_prev := n\<rparr>)
        in os\<lparr>heap := h3, key_map := (key_map os)(k \<mapsto> n), fresh := Suc n\<rparr>)"

text \<open>\<^verbatim>\<open>discard\<close>\<close>

definition discard :: "'k \<Rightarrow> 'k OrderedSet \<Rightarrow> 'k OrderedSet" where
  "discard k os =
     (case key_map os k of
        None \<Rightarrow> os
      | Some a \<Rightarrow>
          let prev_item = node_prev (heap os a);
              next_item = node_next (heap os a);
              h1 = (heap os)(prev_item := (heap os prev_item)\<lparr>node_next := next_item\<rparr>);
              h2 = h1(next_item := (h1 next_item)\<lparr>node_prev := prev_item\<rparr>)
          in os\<lparr>heap := h2, key_map := (key_map os)(k := None)\<rparr>)"

text \<open>
  \<^verbatim>\<open>__iter__\<close>, as the list of the values it yields: from \<^verbatim>\<open>end[2]\<close>, follow the
  \<^verbatim>\<open>next\<close> references until the sentinel is met. \<open>None\<close>: the loop never meets it.
\<close>

partial_function (option) iter_from :: "(nat \<Rightarrow> 'k node) \<Rightarrow> nat \<Rightarrow> 'k option list option" where
  "iter_from h cur =
     (if cur = 0 then Some []
      else Option.bind (iter_from h (node_next (h cur)))
             (\<lambda>ks. Some (node_key (h cur) # ks)))"

definition iter :: "'k OrderedSet \<Rightarrow> 'k option list option" where
  "iter os = iter_from (heap os) (node_next (heap os 0))"

text \<open>\<^verbatim>\<open>__contains__\<close> and \<^verbatim>\<open>__len__\<close>\<close>

definition contains :: "'k OrderedSet \<Rightarrow> 'k \<Rightarrow> bool" where
  "contains os k \<longleftrightarrow> k \<in> dom (key_map os)"

text \<open>Calls of \<^verbatim>\<open>add\<close> and \<^verbatim>\<open>discard\<close>, one after another, on a set.\<close>

datatype 'k set_op = Add 'k | Discard 'k

fun exec_op :: "'k set_op \<Rightarrow> 'k OrderedSet \<Rightarrow> 'k OrderedSet" where
  "exec_op (Add k) os = add k os"
| "exec_op (Discard k) os = discard k os"

text \<open>
  The claim's words as a model of their own: the elements in the order they were first
  added. Adding an element that is present changes nothing, adding an absent one puts
  it last, discarding takes it out.
\<close>

fun ordered_op :: "'k set_op \<Rightarrow> 'k list \<Rightarrow> 'k list" where
  "ordered_op (Add k) ks = (if k \<in> set ks then ks else ks @ [k])"
| "ordered_op (Discard k) ks = removeAll k ks"

declare iter_from.simps [code]

text \<open>
  A chain of addresses in which each is the \<^verbatim>\<open>next\<close> of the one before it and the
  \<^verbatim>\<open>prev\<close> of the one after it.
\<close>

fun linked :: "(nat \<Rightarrow> nat) \<Rightarrow> (nat \<Rightarrow> nat) \<Rightarrow> nat list \<Rightarrow> bool" where
  "linked nf pf (x # y # zs) \<longleftrightarrow> nf x = y \<and> pf y = x \<and> linked nf pf (y # zs)"
| "linked nf pf [x] \<longleftrightarrow> True"
| "linked nf pf [] \<longleftrightarrow> True"

text \<open>
  The set holds the cells (address and key) in this order: the addresses and the keys
  are distinct, each address is in use and holds the node of its key, \<open>key_map\<close> maps
  each key to its address and nothing else, and the nodes form a ring through the
  sentinel, linked both ways.
\<close>

definition ring_inv :: "'k OrderedSet \<Rightarrow> (nat \<times> 'k) list \<Rightarrow> bool" where
  "ring_inv os cells \<longleftrightarrow>
     0 < fresh os \<and> distinct (map fst cells) \<and> distinct (map snd cells)
     \<and> (\<forall>(a, k) \<in> set cells. 0 < a \<and> a < fresh os \<and> node_key (heap os a) = Some k)
     \<and> (\<forall>k a. key_map os k = Some a \<longleftrightarrow> (a, k) \<in> set cells)
     \<and> linked (\<lambda>a. node_next (heap os a)) (\<lambda>a. node_prev (heap os a))
          (0 # map fst cells @ [0])"

section \<open>Properties of the remote state machine\<close>

lemma get_state_except_HomeAssistantError:
  "get_state_except req (HomeAssistantError m) = Inl (HomeAssistantError m)"
  by (simp add: get_state_except_def)

text \<open>
  C8: \<^verbatim>\<open>get_state\<close> returns what \<^verbatim>\<open>State.from_dict\<close> makes of the body on status 200,
  \<^verbatim>\<open>None\<close> on status 422, and raises \<^verbatim>\<open>HomeAssistantError\<close> on a connection error, on
  a body that \<^verbatim>\<open>req.json()\<close> cannot parse or that lacks a key, and on any other status.
\<close>

theorem get_state_outcomes:
  fixes sm :: remote and eid :: string
  defines "answer \<equiv> requests sm METHOD_GET (url_api_states_entity sm eid)"
  shows
  "(\<forall>req data st. answer = Inr req \<and> status_code req = 200 \<and> json_body req = Some data
        \<and> from_dict sm data = Inr st \<longrightarrow> get_state sm eid = Inr st)
   \<and> (\<forall>req. answer = Inr req \<and> status_code req = 422 \<longrightarrow> get_state sm eid = Inr None)
   \<and> (answer = Inl ConnectionError \<longrightarrow>
        get_state sm eid = Inl (HomeAssistantError ''Error connecting to server''))
   \<and> (\<forall>req. answer = Inr req \<and> status_code req = 200 \<and> json_body req = None \<longrightarrow>
        get_state sm eid = Inl (HomeAssistantError (''Got unexpected result: '' @ resp_text req)))
   \<and> (\<forall>req data. answer = Inr req \<and> status_code req = 200 \<and> json_body req = Some data
        \<and> from_dict sm data = Inl ValueError \<longrightarrow>
        get_state sm eid = Inl (HomeAssistantError (''Got unexpected result: '' @ resp_text req)))
   \<and> (\<forall>req data. answer = Inr req \<and> status_code req = 200 \<and> json_body req = Some data
        \<and> from_dict sm data = Inl KeyError \<longrightarrow>
        get_state sm eid = Inl (HomeAssistantError (''Got unexpected result (2): '' @ resp_text req)))
   \<and> (\<forall>req. answer = Inr req \<and> status_code req \<noteq> 200 \<and> status_code req \<noteq> 422 \<longrightarrow>
        get_state sm eid =
          Inl (HomeAssistantError (''Got unexpected result (3): '' @ resp_text req @ ''.'')))"
  unfolding answer_def
  by (simp add: get_state_def call_api_def get_state_except_def)

theorem get_state_outcomes_witness:
  "get_state (server (Inr \<lparr>status_code = 200, resp_text = ''{..}'',
        json_body = Some (JDict [(''state'', JStr ''off'')])\<rparr>)) ''light.kitchen''
     = Inr (Some (kitchen_state\<lparr>state := ''off''\<rparr>))
   \<and> get_state (server (Inr \<lparr>status_code = 422, resp_text = '''', json_body = None\<rparr>))
        ''light.kitchen'' = Inr None
   \<and> get_state (server (Inl ConnectionError)) ''light.kitchen''
        = Inl (HomeAssistantError ''Error connecting to server'')
   \<and> get_state (server (Inr \<lparr>status_code = 200, resp_text = ''oops'', json_body = None\<rparr>))
        ''light.kitchen'' = Inl (HomeAssistantError ''Got unexpected result: oops'')
   \<and> get_state (server (Inr \<lparr>status_code = 200, resp_text = ''{}'', json_body = Some (JDict [])\<rparr>))
        ''light.kitchen'' = Inl (HomeAssistantError ''Got unexpected result (2): {}'')
   \<and> get_state (server (Inr \<lparr>status_code = 500, resp_text = ''down'', json_body = None\<rparr>))
        ''light.kitchen'' = Inl (HomeAssistantError ''Got unexpected result (3): down.'')"
  using
    get_state_outcomes [of "server (Inr \<lparr>status_code = 200, resp_text = ''{..}'',
        json_body = Some (JDict [(''state'', JStr ''off'')])\<rparr>)" "''light.kitchen''"]
    get_state_outcomes [of "server (Inr \<lparr>status_code = 422, resp_text = '''', json_body = None\<rparr>)"
        "''light.kitchen''"]
    get_state_outcomes [of "server (Inl ConnectionError)" "''light.kitchen''"]
    get_state_outcomes [of "server (Inr \<lparr>status_code = 200, resp_text = ''oops'',
        json_body = None\<rparr>)" "''light.kitchen''"]
    get_state_outcomes [of "server (Inr \<lparr>status_code = 200, resp_text = ''{}'',
        json_body = Some (JDict [])\<rparr>)" "''light.kitchen''"]
    get_state_outcomes [of "server (Inr \<lparr>status_code = 500, resp_text = ''down'',
        json_body = None\<rparr>)" "''light.kitchen''"]
  by (simp add: server_def parse_kitchen_def)

text \<open>
  C9: \<^verbatim>\<open>is_state\<close> returns \<^verbatim>\<open>False\<close>, without raising, whenever \<^verbatim>\<open>get_state\<close>
  returns \<^verbatim>\<open>None\<close>; when \<^verbatim>\<open>get_state\<close> returns a \<^verbatim>\<open>State\<close>, it returns whether that
  state's \<^verbatim>\<open>state\<close> field equals the given string.
\<close>

theorem is_state_of_get_state:
  "(get_state sm eid = Inr None \<longrightarrow> is_state sm eid s = Inr False)
   \<and> (\<forall>st. get_state sm eid = Inr (Some st) \<longrightarrow> is_state sm eid s = Inr (state st = s))"
  by (simp add: is_state_def)

theorem is_state_of_get_state_witness:
  "is_state (server (Inr \<lparr>status_code = 422, resp_text = '''', json_body = None\<rparr>))
       ''light.kitchen'' ''on'' = Inr False
   \<and> is_state (server (Inr \<lparr>status_code = 200, resp_text = ''{..}'',
        json_body = Some (JDict [(''state'', JStr ''off'')])\<rparr>)) ''light.kitchen'' ''off''
       = Inr True
   \<and> is_state (server (Inr \<lparr>status_code = 200, resp_text = ''{..}'',
        json_body = Some (JDict [(''state'', JStr ''off'')])\<rparr>)) ''light.kitchen'' ''on''
       = Inr False"
  using
    is_state_of_get_state [of "server (Inr \<lparr>status_code = 422, resp_text = '''',
        json_body = None\<rparr>)" "''light.kitchen''" "''on''"]
    is_state_of_get_state [of "server (Inr \<lparr>status_code = 200, resp_text = ''{..}'',
        json_body = Some (JDict [(''state'', JStr ''off'')])\<rparr>)" "''light.kitchen''" "''off''"]
    is_state_of_get_state [of "server (Inr \<lparr>status_code = 200, resp_text = ''{..}'',
        json_body = Some (JDict [(''state'', JStr ''off'')])\<rparr>)" "''light.kitchen''" "''on''"]
  by (simp add: server_def parse_kitchen_def get_state_def call_api_def kitchen_state_def)

section \<open>Properties of the thread pool\<close>

lemma add_job_effect:
  "add_job pr j q = Inr q' \<Longrightarrow>
     (if busy_callback q \<and> int (qsize q + 1) > busy_warning_limit q
      then busy_warning_limit q' = 2 * busy_warning_limit q
           \<and> busy_calls q' = busy_calls q @ [(current_jobs q, qsize q + 1)]
      else busy_warning_limit q' = busy_warning_limit q \<and> busy_calls q' = busy_calls q)"
  by (auto simp: add_job_def qsize_def Let_def split: if_splits)

lemma watermark_inv_init: "watermark_inv w (ThreadPool_init w cb)"
  by (simp add: watermark_inv_def ThreadPool_init_def)

lemma watermark_inv_add_job:
  assumes "watermark_inv w p" "add_job pr j p = Inr p'"
  shows "watermark_inv w p'"
proof (cases "busy_callback p \<and> int (qsize p + 1) > busy_warning_limit p")
  case True
  with add_job_effect [OF assms(2)]
  have l: "busy_warning_limit p' = 2 * busy_warning_limit p"
    and c: "busy_calls p' = busy_calls p @ [(current_jobs p, qsize p + 1)]" by auto
  from assms(1) have lim: "busy_warning_limit p = w ^ 2 * 2 ^ length (busy_calls p)"
    and old: "\<forall>i < length (busy_calls p). w ^ 2 * 2 ^ i < int (snd (busy_calls p ! i))"
    by (auto simp: watermark_inv_def)
  have "\<forall>i < length (busy_calls p'). w ^ 2 * 2 ^ i < int (snd (busy_calls p' ! i))"
  proof (intro allI impI)
    fix i assume "i < length (busy_calls p')"
    then have "i < length (busy_calls p) \<or> i = length (busy_calls p)" using c by auto
    then show "w ^ 2 * 2 ^ i < int (snd (busy_calls p' ! i))"
    proof
      assume "i < length (busy_calls p)"
      then show ?thesis using old c by (simp add: nth_append)
    next
      assume "i = length (busy_calls p)"
      then show ?thesis using c lim True by (simp add: nth_append)
    qed
  qed
  then show ?thesis using l c lim by (simp add: watermark_inv_def)
next
  case False
  with add_job_effect [OF assms(2)]
  have "busy_warning_limit p' = busy_warning_limit p" "busy_calls p' = busy_calls p" by auto
  then show ?thesis using assms(1) by (simp add: watermark_inv_def)
qed

lemma watermark_inv_exec_event: "watermark_inv w p \<Longrightarrow> watermark_inv w (exec_event e p)"
proof (cases e)
  case (AddJob pr j)
  assume "watermark_inv w p"
  then show ?thesis using AddJob watermark_inv_add_job [of w p pr "Job j"]
    by (cases "add_job pr (Job j) p") (auto simp: exec_event_def)
next
  case WorkerTake
  assume "watermark_inv w p"
  then show ?thesis using WorkerTake
    by (auto simp: exec_event_def worker_take_def watermark_inv_def
        split: option.splits prod.splits job.splits)
next
  case (WorkerFinish j)
  assume "watermark_inv w p"
  then show ?thesis using WorkerFinish
    by (auto simp: exec_event_def worker_finish_def watermark_inv_def)
qed

lemma watermark_inv_run: "watermark_inv w p \<Longrightarrow> watermark_inv w (run evs p)"
  unfolding run_def by (induction evs arbitrary: p) (auto simp: watermark_inv_exec_event)

text \<open>
  C5: a call of \<^verbatim>\<open>add_job\<close> invokes \<^verbatim>\<open>busy_callback\<close> exactly when there is a callback
  and the queue, the new item counted, is longer than \<open>busy_warning_limit\<close>; the limit
  is doubled by that call and by nothing else. So, over any sequence of \<^verbatim>\<open>add_job\<close>
  calls and worker steps on a new pool, the limit is \<open>worker_count\<^sup>2\<close> doubled once per
  call of the callback, and the \<open>i\<close>-th call of the callback (counted from 0) saw more
  than \<open>worker_count\<^sup>2 * 2\<^sup>i\<close> items: one call per doubling of the watermark.
\<close>

theorem busy_callback_once_per_doubling:
  "(\<forall>pr j q q'. add_job pr j q = Inr q' \<longrightarrow>
       (if busy_callback q \<and> int (qsize q + 1) > busy_warning_limit q
        then busy_warning_limit q' = 2 * busy_warning_limit q
             \<and> busy_calls q' = busy_calls q @ [(current_jobs q, qsize q + 1)]
        else busy_warning_limit q' = busy_warning_limit q \<and> busy_calls q' = busy_calls q))
   \<and> busy_warning_limit (run evs (ThreadPool_init w cb))
        = w ^ 2 * 2 ^ length (busy_calls (run evs (ThreadPool_init w cb)))
   \<and> (\<forall>i < length (busy_calls (run evs (ThreadPool_init w cb))).
        w ^ 2 * 2 ^ i < int (snd (busy_calls (run evs (ThreadPool_init w cb)) ! i)))"
  using add_job_effect watermark_inv_run [OF watermark_inv_init, of w evs cb]
  unfolding watermark_inv_def by blast


theorem busy_callback_once_per_doubling_witness:
  "add_job 1 (Job 2) (run [AddJob 1 1] (ThreadPool_init 1 True))
     = Inr (run [AddJob 1 1, AddJob 1 (2::nat)] (ThreadPool_init 1 True))
   \<and> busy_calls (run [AddJob 1 1] (ThreadPool_init 1 True) :: nat pool) = []
   \<and> busy_warning_limit (run [AddJob 1 1] (ThreadPool_init 1 True) :: nat pool) = 1
   \<and> busy_calls (run [AddJob 1 1, AddJob 1 (2::nat)] (ThreadPool_init 1 True)) = [([], 2)]
   \<and> busy_warning_limit (run [AddJob 1 1, AddJob 1 (2::nat)] (ThreadPool_init 1 True)) = 2"
  using busy_callback_once_per_doubling [of "[AddJob 1 1, AddJob 1 (2::nat)]" 1 True]
  by (simp add: run_def exec_event_def add_job_def ThreadPool_init_def qsize_def Let_def)










section \<open>Properties of the device tracker\<close>

lemma HOME_neq: "STATE_DEVICE_NOT_HOME \<noteq> STATE_DEVICE_HOME"
  by (simp add: STATE_DEVICE_NOT_HOME_def STATE_DEVICE_HOME_def)

lemma map_fst_set_last_seen: "map fst (set_last_seen d t devs) = map fst devs"
  by (induction devs) (auto simp: set_last_seen_def)

lemma map_name_set_last_seen: "map (\<lambda>p. name (snd p)) (set_last_seen d t devs) = map (\<lambda>p. name (snd p)) devs"
  by (induction devs) (auto simp: set_last_seen_def)

lemma map_category_set_last_seen:
  "map (\<lambda>p. category (snd p)) (set_last_seen d t devs) = map (\<lambda>p. category (snd p)) devs"
  by (induction devs) (auto simp: set_last_seen_def)

lemma map_of_set_last_seen:
  "map_of (set_last_seen d t devs) x =
     (if x = d then map_option (\<lambda>i. i\<lparr>last_seen := t\<rparr>) (map_of devs d) else map_of devs x)"
  by (induction devs) (auto simp: set_last_seen_def)

lemma map_of_same_shape:
  "map fst a = map fst b \<Longrightarrow> map (\<lambda>p. g (snd p)) a = map (\<lambda>p. g (snd p)) b \<Longrightarrow>
   map_option g (map_of a x) = map_option g (map_of b x)"
proof (induction a arbitrary: b)
  case Nil
  then show ?case by simp
next
  case (Cons p a)
  then obtain q b' where b: "b = q # b'" by (cases b) auto
  with Cons.prems have "fst p = fst q" "g (snd p) = g (snd q)"
    "map fst a = map fst b'" "map (\<lambda>p. g (snd p)) a = map (\<lambda>p. g (snd p)) b'" by auto
  with Cons.IH [of b'] b show ?case by (cases p; cases q) auto
qed

lemma same_devices_refl: "same_devices tr tr"
  by (simp add: same_devices_def)

lemma same_devices_trans: "same_devices a b \<Longrightarrow> same_devices b c \<Longrightarrow> same_devices a c"
  by (simp add: same_devices_def)

lemma same_devices_category_of: "same_devices tr tr' \<Longrightarrow> category_of tr' x = category_of tr x"
  unfolding same_devices_def category_of_def by (intro map_of_same_shape) simp_all

lemma same_devices_keys:
  "same_devices tr tr' \<Longrightarrow> fst ` set (devices_to_track tr') = fst ` set (devices_to_track tr)"
  unfolding same_devices_def by (metis set_map)

text \<open>The effect of one call of set_state.\<close>

lemma set_state_home:
  assumes "map_of (devices_to_track tr) dev = Some info"
  shows "set_state clock dev STATE_DEVICE_HOME (tr, k) =
     Inr (tr\<lparr>devices_to_track := set_last_seen dev (clock k) (devices_to_track tr),
             statemachine := statemachine_set_state (category info) STATE_DEVICE_HOME
                               (statemachine tr)\<rparr>, Suc k)"
  using assms by (simp add: set_state_def)

lemma set_state_not_home:
  assumes "map_of (devices_to_track tr) dev = Some info"
  shows "set_state clock dev STATE_DEVICE_NOT_HOME (tr, k) =
     Inr (tr\<lparr>statemachine := statemachine_set_state (category info) STATE_DEVICE_NOT_HOME
                               (statemachine tr)\<rparr>, k)"
  using assms HOME_neq by (simp add: set_state_def)


lemma found_loop_Cons_in:
  "dev \<in> set temp \<Longrightarrow> map_of (devices_to_track tr) dev = Some info \<Longrightarrow>
   found_loop clock (dev # found) (temp, tr, k) =
     found_loop clock found (remove1 dev temp, home_step clock dev info tr k, Suc k)"
  by (simp add: set_state_home home_step_def)

lemma found_loop_Cons_out:
  "dev \<notin> set temp \<Longrightarrow>
   found_loop clock (dev # found) (temp, tr, k) = found_loop clock found (temp, tr, k)"
  by simp

lemma found_loop_Cons_err:
  "dev \<in> set temp \<Longrightarrow> map_of (devices_to_track tr) dev = None \<Longrightarrow>
   found_loop clock (dev # found) (temp, tr, k) = Inl KeyError"
  by (simp add: set_state_def)

declare found_loop.simps(2) [simp del]

lemma home_step_same_devices: "same_devices tr (home_step clock dev info tr k)"
  by (simp add: same_devices_def home_step_def map_fst_set_last_seen map_name_set_last_seen
      map_category_set_last_seen)

lemma home_step_fields:
  "all_devices_state (home_step clock dev info tr k) = all_devices_state tr"
  "states (statemachine (home_step clock dev info tr k))
     = (states (statemachine tr))(category info \<mapsto> STATE_DEVICE_HOME)"
  "set_calls (statemachine (home_step clock dev info tr k))
     = set_calls (statemachine tr) @ [(category info, STATE_DEVICE_HOME)]"
  "map_of (devices_to_track (home_step clock dev info tr k)) x =
     (if x = dev then map_option (\<lambda>i. i\<lparr>last_seen := clock k\<rparr>) (map_of (devices_to_track tr) dev)
      else map_of (devices_to_track tr) x)"
  by (simp_all add: home_step_def statemachine_set_state_def map_of_set_last_seen)

lemma map_of_keys: "map_of xs k \<noteq> None \<longleftrightarrow> k \<in> fst ` set xs"
  by (simp add: map_of_eq_None_iff)

lemma found_loop_success:
  assumes "distinct temp" "set temp \<subseteq> fst ` set (devices_to_track tr)"
  shows "\<exists>tr' k'. found_loop clock found (temp, tr, k)
            = Inr (filter (\<lambda>x. x \<notin> set found) temp, tr', k')
          \<and> same_devices tr tr' \<and> all_devices_state tr' = all_devices_state tr
          \<and> k \<le> k' \<and> k' \<le> k + length found"
  using assms
proof (induction found arbitrary: temp tr k)
  case Nil
  then show ?case by (simp add: same_devices_refl)
next
  case (Cons dev found)
  show ?case
  proof (cases "dev \<in> set temp")
    case False
    then have f: "filter (\<lambda>x. x \<notin> set (dev # found)) temp = filter (\<lambda>x. x \<notin> set found) temp"
      by (intro filter_cong) auto
    from Cons.IH [OF Cons.prems, of k] show ?thesis
      unfolding found_loop_Cons_out [OF False] f by auto
  next
    case True
    with Cons.prems obtain info where i: "map_of (devices_to_track tr) dev = Some info"
      using map_of_keys [of "devices_to_track tr" dev] by auto
    let ?tr1 = "home_step clock dev info tr k"
    have sd: "same_devices tr ?tr1" by (rule home_step_same_devices)
    have d: "distinct (remove1 dev temp)" using Cons.prems by simp
    have s: "set (remove1 dev temp) \<subseteq> fst ` set (devices_to_track ?tr1)"
      using Cons.prems same_devices_keys [OF sd] by (auto dest: notin_set_remove1)
    have "remove1 dev temp = filter (\<lambda>x. x \<noteq> dev) temp"
      using Cons.prems(1) by (simp add: distinct_remove1_removeAll removeAll_filter_not_eq) (rule filter_cong; auto)
    then have f: "filter (\<lambda>x. x \<notin> set (dev # found)) temp
        = filter (\<lambda>x. x \<notin> set found) (remove1 dev temp)"
      by simp
    from Cons.IH [OF d s, of "Suc k"] obtain tr' k' where
      "found_loop clock found (remove1 dev temp, ?tr1, Suc k)
         = Inr (filter (\<lambda>x. x \<notin> set found) (remove1 dev temp), tr', k')"
      "same_devices ?tr1 tr'" "all_devices_state tr' = all_devices_state ?tr1"
      "Suc k \<le> k'" "k' \<le> Suc k + length found" by blast
    then show ?thesis
      unfolding found_loop_Cons_in [OF True i] f
      using same_devices_trans [OF sd] by (auto simp: home_step_fields)
  qed
qed

lemma found_loop_devices_frame:
  assumes "found_loop clock found (temp, tr, k) = Inr (temp', tr', k')"
    and "x \<notin> set found \<or> x \<notin> set temp"
  shows "map_of (devices_to_track tr') x = map_of (devices_to_track tr) x"
  using assms
proof (induction found arbitrary: temp tr k)
  case Nil
  then show ?case by simp
next
  case (Cons dev found)
  show ?case
  proof (cases "dev \<in> set temp")
    case False
    with Cons.prems show ?thesis
      using Cons.IH [of temp tr k] by (auto simp: found_loop_Cons_out)
  next
    case True
    show ?thesis
    proof (cases "map_of (devices_to_track tr) dev")
      case None
      with Cons.prems True show ?thesis by (simp add: found_loop_Cons_err)
    next
      case (Some info)
      let ?tr1 = "home_step clock dev info tr k"
      from Cons.prems(2) True have ne: "x \<noteq> dev" by auto
      from Cons.prems(2) have "x \<notin> set found \<or> x \<notin> set (remove1 dev temp)"
        by (auto dest: notin_set_remove1)
      moreover from Cons.prems(1) have
        "found_loop clock found (remove1 dev temp, ?tr1, Suc k) = Inr (temp', tr', k')"
        by (simp only: found_loop_Cons_in [OF True Some])
      ultimately have "map_of (devices_to_track tr') x = map_of (devices_to_track ?tr1) x"
        by (rule Cons.IH [rotated])
      then show ?thesis using ne by (simp add: home_step_fields)
    qed
  qed
qed




lemma home_step_category_of: "category_of (home_step clock dev info tr k) x = category_of tr x"
  by (rule same_devices_category_of [OF home_step_same_devices])

lemma found_loop_states:
  assumes "found_loop clock found (temp, tr, k) = Inr (temp', tr', k')"
  shows "states (statemachine tr') c =
     (if \<exists>x \<in> set found \<inter> set temp. category_of tr x = Some c then Some STATE_DEVICE_HOME
      else states (statemachine tr) c)"
  using assms
proof (induction found arbitrary: temp tr k)
  case Nil
  then show ?case by simp
next
  case (Cons dev found)
  show ?case
  proof (cases "dev \<in> set temp")
    case False
    then have "(\<exists>x \<in> set (dev # found) \<inter> set temp. category_of tr x = Some c)
        \<longleftrightarrow> (\<exists>x \<in> set found \<inter> set temp. category_of tr x = Some c)" by auto
    with Cons.prems False show ?thesis
      using Cons.IH [of temp tr k] by (simp add: found_loop_Cons_out)
  next
    case True
    show ?thesis
    proof (cases "map_of (devices_to_track tr) dev")
      case None
      with Cons.prems True show ?thesis by (simp add: found_loop_Cons_err)
    next
      case (Some info)
      let ?tr1 = "home_step clock dev info tr k"
      from Cons.prems have
        "found_loop clock found (remove1 dev temp, ?tr1, Suc k) = Inr (temp', tr', k')"
        by (simp only: found_loop_Cons_in [OF True Some])
      from Cons.IH [OF this] have ih: "states (statemachine tr') c =
        (if \<exists>x \<in> set found \<inter> set (remove1 dev temp). category_of tr x = Some c
         then Some STATE_DEVICE_HOME else states (statemachine ?tr1) c)"
        by (simp add: home_step_category_of)
      have cat: "category_of tr dev = Some (category info)"
        using Some by (simp add: category_of_def)
      have "(\<exists>x \<in> set (dev # found) \<inter> set temp. category_of tr x = Some c)
        \<longleftrightarrow> c = category info \<or> (\<exists>x \<in> set found \<inter> set (remove1 dev temp). category_of tr x = Some c)"
        (is "?L \<longleftrightarrow> ?R")
      proof
        assume ?L
        then obtain x where x: "x = dev \<or> x \<in> set found" "x \<in> set temp" "category_of tr x = Some c"
          by auto
        show ?R
        proof (cases "x = dev")
          case True
          with x cat show ?thesis by simp
        next
          case False
          with x have "x \<in> set found \<inter> set (remove1 dev temp)" by simp
          with x show ?thesis by blast
        qed
      next
        assume ?R
        then show ?L
        proof
          assume "c = category info"
          with True cat show ?L by auto
        next
          assume "\<exists>x \<in> set found \<inter> set (remove1 dev temp). category_of tr x = Some c"
          then obtain x where "x \<in> set found" "x \<in> set (remove1 dev temp)"
            "category_of tr x = Some c" by auto
          moreover then have "x \<in> set temp" by (metis notin_set_remove1)
          ultimately show ?L by auto
        qed
      qed
      with ih show ?thesis by (auto simp: home_step_fields)
    qed
  qed
qed

lemma found_loop_set_calls:
  assumes "found_loop clock found (temp, tr, k) = Inr (temp', tr', k')"
  shows "\<exists>cs. set_calls (statemachine tr') = set_calls (statemachine tr) @ cs
     \<and> (\<forall>x \<in> set found \<inter> set temp. \<forall>c. category_of tr x = Some c
           \<longrightarrow> (c, STATE_DEVICE_HOME) \<in> set cs)"
  using assms
proof (induction found arbitrary: temp tr k)
  case Nil
  then show ?case by simp
next
  case (Cons dev found)
  show ?case
  proof (cases "dev \<in> set temp")
    case False
    with Cons.prems show ?thesis
      using Cons.IH [of temp tr k] by (auto simp: found_loop_Cons_out)
  next
    case True
    show ?thesis
    proof (cases "map_of (devices_to_track tr) dev")
      case None
      with Cons.prems True show ?thesis by (simp add: found_loop_Cons_err)
    next
      case (Some info)
      let ?tr1 = "home_step clock dev info tr k"
      from Cons.prems have
        "found_loop clock found (remove1 dev temp, ?tr1, Suc k) = Inr (temp', tr', k')"
        by (simp only: found_loop_Cons_in [OF True Some])
      from Cons.IH [OF this] obtain cs where cs:
        "set_calls (statemachine tr') = set_calls (statemachine ?tr1) @ cs"
        "\<forall>x \<in> set found \<inter> set (remove1 dev temp). \<forall>c. category_of tr x = Some c
           \<longrightarrow> (c, STATE_DEVICE_HOME) \<in> set cs"
        by (auto simp: home_step_category_of)
      have cat: "category_of tr dev = Some (category info)"
        using Some by (simp add: category_of_def)
      let ?cs = "(category info, STATE_DEVICE_HOME) # cs"
      have "set_calls (statemachine tr') = set_calls (statemachine tr) @ ?cs"
        using cs(1) by (simp add: home_step_fields)
      moreover have "\<forall>x \<in> set (dev # found) \<inter> set temp. \<forall>c. category_of tr x = Some c
           \<longrightarrow> (c, STATE_DEVICE_HOME) \<in> set ?cs"
      proof (intro ballI allI impI)
        fix x c assume x: "x \<in> set (dev # found) \<inter> set temp" "category_of tr x = Some c"
        show "(c, STATE_DEVICE_HOME) \<in> set ?cs"
        proof (cases "x = dev")
          case True
          with x cat show ?thesis by simp
        next
          case False
          with x have "x \<in> set found \<inter> set (remove1 dev temp)" by simp
          with cs(2) x show ?thesis by auto
        qed
      qed
      ultimately show ?thesis by blast
    qed
  qed
qed


lemma away_step_fields:
  "devices_to_track (away_step info tr) = devices_to_track tr"
  "all_devices_state (away_step info tr) = all_devices_state tr"
  "states (statemachine (away_step info tr))
     = (states (statemachine tr))(category info \<mapsto> STATE_DEVICE_NOT_HOME)"
  "set_calls (statemachine (away_step info tr))
     = set_calls (statemachine tr) @ [(category info, STATE_DEVICE_NOT_HOME)]"
  "category_of (away_step info tr) x = category_of tr x"
  by (simp_all add: away_step_def statemachine_set_state_def category_of_def)

lemma not_found_loop_Cons:
  "map_of (devices_to_track tr) dev = Some info \<Longrightarrow>
   states (statemachine tr) (category info) = Some s \<Longrightarrow>
   not_found_loop clock (dev # temp) (tr, k) =
     not_found_loop clock temp (not_found_step clock info s (tr, k))"
  by (simp add: statemachine_get_state_def set_state_not_home away_step_def not_found_step_def)

lemma not_found_loop_Cons_KeyError:
  "map_of (devices_to_track tr) dev = None \<Longrightarrow>
   not_found_loop clock (dev # temp) (tr, k) = Inl KeyError"
  by simp

lemma not_found_loop_Cons_AttributeError:
  "map_of (devices_to_track tr) dev = Some info \<Longrightarrow>
   states (statemachine tr) (category info) = None \<Longrightarrow>
   not_found_loop clock (dev # temp) (tr, k) = Inl AttributeError"
  by (simp add: statemachine_get_state_def)

declare not_found_loop.simps(2) [simp del]

lemma not_found_step_cases:
  obtains (away) "s = STATE_DEVICE_HOME"
      "to_us (clock k) - to_us (last_seen info) > TIME_SPAN_FOR_ERROR_IN_SCANNING"
      "not_found_step clock info s (tr, k) = (away_step info tr, Suc k)"
  | (stay) "\<not> (s = STATE_DEVICE_HOME
        \<and> to_us (clock k) - to_us (last_seen info) > TIME_SPAN_FOR_ERROR_IN_SCANNING)"
      "not_found_step clock info s (tr, k) = (tr, k) \<or> not_found_step clock info s (tr, k) = (tr, Suc k)"
  by (cases "s = STATE_DEVICE_HOME";
      cases "to_us (clock k) - to_us (last_seen info) > TIME_SPAN_FOR_ERROR_IN_SCANNING")
    (auto simp: not_found_step_def)

lemma registered_away_step: "registered tr \<Longrightarrow> registered (away_step info tr)"
  by (auto simp: registered_def away_step_fields)

lemma registered_home_step: "registered tr \<Longrightarrow> registered (home_step clock dev info tr k)"
  by (auto simp: registered_def home_step_def statemachine_set_state_def set_last_seen_def
      split: if_splits)

lemma not_found_loop_success:
  assumes "set temp \<subseteq> fst ` set (devices_to_track tr)" "registered tr"
  shows "\<exists>tr' k'. not_found_loop clock temp (tr, k) = Inr (tr', k')
     \<and> devices_to_track tr' = devices_to_track tr
     \<and> all_devices_state tr' = all_devices_state tr \<and> registered tr'
     \<and> (\<exists>cs. set_calls (statemachine tr') = set_calls (statemachine tr) @ cs)"
  using assms
proof (induction temp arbitrary: tr k)
  case Nil
  then show ?case by simp
next
  case (Cons dev temp)
  from Cons.prems obtain info where i: "map_of (devices_to_track tr) dev = Some info"
    using map_of_keys [of "devices_to_track tr" dev] by auto
  then have "(dev, info) \<in> set (devices_to_track tr)" by (rule map_of_SomeD)
  with Cons.prems obtain s where s: "states (statemachine tr) (category info) = Some s"
    by (auto simp: registered_def)
  show ?case
  proof (cases rule: not_found_step_cases [of s clock k info tr])
    case away
    have "set temp \<subseteq> fst ` set (devices_to_track (away_step info tr))"
      using Cons.prems by (simp add: away_step_fields)
    from Cons.IH [OF this registered_away_step [OF Cons.prems(2)], of "Suc k"]
    show ?thesis
      unfolding not_found_loop_Cons [OF i s] away(3) by (auto simp: away_step_fields)
  next
    case stay
    have "set temp \<subseteq> fst ` set (devices_to_track tr)" using Cons.prems by simp
    from Cons.IH [OF this Cons.prems(2)] stay(2)
    show ?thesis
      unfolding not_found_loop_Cons [OF i s] by auto
  qed
qed

lemma not_found_loop_states_frame:
  assumes "not_found_loop clock temp (tr, k) = Inr (tr', k')"
    and "\<forall>x \<in> set temp. category_of tr x \<noteq> Some c"
  shows "states (statemachine tr') c = states (statemachine tr) c"
  using assms
proof (induction temp arbitrary: tr k)
  case Nil
  then show ?case by simp
next
  case (Cons dev temp)
  show ?case
  proof (cases "map_of (devices_to_track tr) dev")
    case None
    with Cons.prems show ?thesis by (simp add: not_found_loop_Cons_KeyError)
  next
    case (Some info)
    with Cons.prems(2) have ne: "category info \<noteq> c" by (auto simp: category_of_def)
    show ?thesis
    proof (cases "states (statemachine tr) (category info)")
      case None
      with Cons.prems Some show ?thesis by (simp add: not_found_loop_Cons_AttributeError)
    next
      case s: (Some s)
      show ?thesis
      proof (cases rule: not_found_step_cases [of s clock k info tr])
        case away
        from Cons.prems(1) have
          "not_found_loop clock temp (away_step info tr, Suc k) = Inr (tr', k')"
          by (simp only: not_found_loop_Cons [OF Some s] away(3))
        moreover have "\<forall>x \<in> set temp. category_of (away_step info tr) x \<noteq> Some c"
          using Cons.prems(2) by (simp add: away_step_fields)
        ultimately have "states (statemachine tr') c = states (statemachine (away_step info tr)) c"
          by (rule Cons.IH)
        then show ?thesis using ne by (simp add: away_step_fields)
      next
        case stay
        from Cons.prems(2) have "\<forall>x \<in> set temp. category_of tr x \<noteq> Some c" by simp
        with Cons.prems(1) stay(2) show ?thesis
          unfolding not_found_loop_Cons [OF Some s] using Cons.IH by metis
      qed
    qed
  qed
qed

lemma not_found_loop_own:
  assumes "not_found_loop clock temp (tr, k) = Inr (tr', k')"
    and "distinct temp" "dev \<in> set temp" "map_of (devices_to_track tr) dev = Some info"
    and "\<forall>x \<in> set temp. x \<noteq> dev \<longrightarrow> category_of tr x \<noteq> Some (category info)"
  shows "\<exists>j. states (statemachine tr') (category info) =
     (if states (statemachine tr) (category info) = Some STATE_DEVICE_HOME
         \<and> to_us (clock j) - to_us (last_seen info) > TIME_SPAN_FOR_ERROR_IN_SCANNING
      then Some STATE_DEVICE_NOT_HOME else states (statemachine tr) (category info))"
  using assms
proof (induction temp arbitrary: tr k)
  case Nil
  then show ?case by simp
next
  case (Cons x temp)
  let ?c = "category info"
  show ?case
  proof (cases "x = dev")
    case True
    show ?thesis
    proof (cases "states (statemachine tr) ?c")
      case None
      with Cons.prems True show ?thesis by (simp add: not_found_loop_Cons_AttributeError)
    next
      case s: (Some s)
      have rest: "\<forall>y \<in> set temp. category_of tr y \<noteq> Some ?c"
        using Cons.prems True by auto
      show ?thesis
      proof (cases rule: not_found_step_cases [of s clock k info tr])
        case away
        from Cons.prems(1) have
          "not_found_loop clock temp (away_step info tr, Suc k) = Inr (tr', k')"
          unfolding True by (simp only: not_found_loop_Cons [OF Cons.prems(4) s] away(3))
        moreover have "\<forall>y \<in> set temp. category_of (away_step info tr) y \<noteq> Some ?c"
          using rest by (simp add: away_step_fields)
        ultimately have "states (statemachine tr') ?c = states (statemachine (away_step info tr)) ?c"
          by (rule not_found_loop_states_frame)
        with away s show ?thesis by (intro exI [of _ k]) (simp add: away_step_fields)
      next
        case stay
        from Cons.prems(1) stay(2) have "\<exists>k1. not_found_loop clock temp (tr, k1) = Inr (tr', k')"
          unfolding True not_found_loop_Cons [OF Cons.prems(4) s] by metis
        then obtain k1 where "not_found_loop clock temp (tr, k1) = Inr (tr', k')" ..
        from not_found_loop_states_frame [OF this rest]
        have "states (statemachine tr') ?c = states (statemachine tr) ?c" .
        with stay(1) s show ?thesis by (intro exI [of _ k]) auto
      qed
    qed
  next
    case False
    with Cons.prems have ne: "category_of tr x \<noteq> Some ?c" and d: "distinct temp"
      and m: "dev \<in> set temp"
      and rest: "\<forall>y \<in> set temp. y \<noteq> dev \<longrightarrow> category_of tr y \<noteq> Some ?c" by auto
    show ?thesis
    proof (cases "map_of (devices_to_track tr) x")
      case None
      with Cons.prems show ?thesis by (simp add: not_found_loop_Cons_KeyError)
    next
      case (Some xi)
      with ne have ne': "category xi \<noteq> ?c" by (simp add: category_of_def)
      show ?thesis
      proof (cases "states (statemachine tr) (category xi)")
        case None
        with Cons.prems Some show ?thesis by (simp add: not_found_loop_Cons_AttributeError)
      next
        case s: (Some s)
        show ?thesis
        proof (cases rule: not_found_step_cases [of s clock k xi tr])
          case away
          from Cons.prems(1) have run:
            "not_found_loop clock temp (away_step xi tr, Suc k) = Inr (tr', k')"
            by (simp only: not_found_loop_Cons [OF Some s] away(3))
          have eq: "states (statemachine (away_step xi tr)) ?c = states (statemachine tr) ?c"
            using ne' by (simp add: away_step_fields)
          have "map_of (devices_to_track (away_step xi tr)) dev = Some info"
            "\<forall>y \<in> set temp. y \<noteq> dev \<longrightarrow> category_of (away_step xi tr) y \<noteq> Some ?c"
            using Cons.prems(4) rest by (simp_all add: away_step_fields)
          from Cons.IH [OF run d m this]
          show ?thesis unfolding eq .
        next
          case stay
          from Cons.prems(1) stay(2) have "\<exists>k1. not_found_loop clock temp (tr, k1) = Inr (tr', k')"
            unfolding not_found_loop_Cons [OF Some s] by metis
          then obtain k1 where "not_found_loop clock temp (tr, k1) = Inr (tr', k')" ..
          from Cons.IH [OF this d m Cons.prems(4) rest] show ?thesis .
        qed
      qed
    qed
  qed
qed

lemma states_of_devices_registered:
  assumes "\<forall>(dev, info) \<in> set devs. states sm (category info) \<noteq> None"
  shows "\<exists>ss. states_of_devices sm devs = Inr ss
     \<and> (STATE_DEVICE_HOME \<in> set ss \<longleftrightarrow>
          (\<exists>(dev, info) \<in> set devs. states sm (category info) = Some STATE_DEVICE_HOME))"
  using assms
proof (induction devs)
  case Nil
  then show ?case by simp
next
  case (Cons p devs)
  obtain dev info where p: "p = (dev, info)" by (cases p)
  with Cons.prems obtain s where s: "states sm (category info) = Some s" by auto
  from Cons.IH Cons.prems obtain ss where ss: "states_of_devices sm devs = Inr ss"
    "STATE_DEVICE_HOME \<in> set ss \<longleftrightarrow>
       (\<exists>(dev, info) \<in> set devs. states sm (category info) = Some STATE_DEVICE_HOME)" by auto
  have "states_of_devices sm (p # devs) = Inr (s # ss)"
    using p s ss(1) by (simp add: statemachine_get_state_def)
  moreover have "STATE_DEVICE_HOME \<in> set (s # ss) \<longleftrightarrow>
     (\<exists>(dev, info) \<in> set (p # devs). states sm (category info) = Some STATE_DEVICE_HOME)"
    using p s ss(2) by auto
  ultimately show ?case by blast
qed


lemma finish_fields:
  "devices_to_track (finish tr) = devices_to_track tr"
  "all_devices_state (finish tr) = aggregate tr"
  "states (statemachine (finish tr))
     = (states (statemachine tr))(STATE_CATEGORY_ALL_DEVICES \<mapsto> aggregate tr)"
  "set_calls (statemachine (finish tr))
     = set_calls (statemachine tr) @ [(STATE_CATEGORY_ALL_DEVICES, aggregate tr)]"
  by (simp_all add: finish_def statemachine_set_state_def)

lemma registered_categories:
  "registered tr \<longleftrightarrow>
     (\<forall>c \<in> set (map (\<lambda>p. category (snd p)) (devices_to_track tr)).
        states (statemachine tr) c \<noteq> None)"
  by (auto simp: registered_def)

lemma tracker_ok_registered: "tracker_ok tr \<longleftrightarrow> distinct (map fst (devices_to_track tr)) \<and> registered tr"
  by (simp add: tracker_ok_def registered_def)

lemma found_loop_registered:
  assumes "found_loop clock found (temp, tr, k) = Inr (temp', tr', k')"
    and "same_devices tr tr'" "registered tr"
  shows "registered tr'"
  using assms(2,3) found_loop_states [OF assms(1)]
  by (simp add: registered_categories same_devices_def)

lemma update_devices_unfold:
  assumes "tracker_ok tr"
  obtains tr1 k1 tr2 k2 where
    "found_loop clock found (map fst (devices_to_track tr), tr, 0)
       = Inr (filter (\<lambda>x. x \<notin> set found) (map fst (devices_to_track tr)), tr1, k1)"
    "same_devices tr tr1" "k1 \<le> length found"
    "not_found_loop clock (filter (\<lambda>x. x \<notin> set found) (map fst (devices_to_track tr))) (tr1, k1)
       = Inr (tr2, k2)"
    "devices_to_track tr2 = devices_to_track tr1" "registered tr2"
    "\<exists>cs. set_calls (statemachine tr2) = set_calls (statemachine tr1) @ cs"
    "update_devices clock found tr = Inr (finish tr2)"
proof -
  let ?keys = "map fst (devices_to_track tr)"
  let ?temp = "filter (\<lambda>x. x \<notin> set found) ?keys"
  from assms have d: "distinct ?keys" and r: "registered tr"
    by (simp_all add: tracker_ok_registered)
  from found_loop_success [OF d, of tr clock found 0] obtain tr1 k1 where
    f: "found_loop clock found (?keys, tr, 0) = Inr (?temp, tr1, k1)"
    and sd: "same_devices tr tr1" and k1: "k1 \<le> length found" by auto
  have r1: "registered tr1" by (rule found_loop_registered [OF f sd r])
  have "set ?temp \<subseteq> fst ` set (devices_to_track tr1)"
    using same_devices_keys [OF sd] by auto
  from not_found_loop_success [OF this r1, of clock k1] obtain tr2 k2 where
    n: "not_found_loop clock ?temp (tr1, k1) = Inr (tr2, k2)"
    and d2: "devices_to_track tr2 = devices_to_track tr1" and r2: "registered tr2"
    and c2: "\<exists>cs. set_calls (statemachine tr2) = set_calls (statemachine tr1) @ cs" by blast
  from r2 have "\<forall>(dev, info) \<in> set (devices_to_track tr2).
      states (statemachine tr2) (category info) \<noteq> None" by (simp add: registered_def)
  from states_of_devices_registered [OF this] obtain ss where
    ss: "states_of_devices (statemachine tr2) (devices_to_track tr2) = Inr ss"
    "STATE_DEVICE_HOME \<in> set ss \<longleftrightarrow> (\<exists>(dev, info) \<in> set (devices_to_track tr2).
        states (statemachine tr2) (category info) = Some STATE_DEVICE_HOME)" by blast
  have "update_devices clock found tr = Inr (finish tr2)"
    using f n ss by (simp add: update_devices_def finish_def aggregate_def)
  with f sd k1 n d2 r2 c2 show ?thesis by (rule that)
qed

lemma found_loop_filter:
  assumes "set temp \<subseteq> K"
  shows "found_loop clock (filter (\<lambda>x. x \<in> K) found) (temp, tr, k)
       = found_loop clock found (temp, tr, k)"
  using assms
proof (induction found arbitrary: temp tr k)
  case Nil
  then show ?case by simp
next
  case (Cons dev found)
  show ?case
  proof (cases "dev \<in> set temp")
    case False
    with Cons show ?thesis by (simp add: found_loop_Cons_out)
  next
    case True
    with Cons.prems have K: "dev \<in> K" by auto
    have s: "set (remove1 dev temp) \<subseteq> K" using Cons.prems by (auto dest: notin_set_remove1)
    show ?thesis
    proof (cases "map_of (devices_to_track tr) dev")
      case None
      with True K show ?thesis by (simp add: found_loop_Cons_err)
    next
      case (Some info)
      with True K Cons.IH [OF s] show ?thesis by (simp add: found_loop_Cons_in)
    qed
  qed
qed

lemma update_devices_filter:
  "update_devices clock (filter (\<lambda>dev. dev \<in> fst ` set (devices_to_track tr)) found) tr
     = update_devices clock found tr"
  by (simp add: update_devices_def found_loop_filter)

lemma finish_same_devices: "same_devices tr (finish tr)"
  by (simp add: same_devices_def finish_fields)

lemma tracker_ok_finish: "distinct (map fst (devices_to_track tr)) \<Longrightarrow> registered tr \<Longrightarrow> tracker_ok (finish tr)"
  by (auto simp: tracker_ok_def registered_def finish_fields)

text \<open>
  C4: on a tracker as \<^verbatim>\<open>__init__\<close> leaves it, \<open>update_devices\<close> returns; the tracked
  devices, their names and their categories are what they were, in the same order; the
  \<^verbatim>\<open>last_seen\<close> of every device id that is not in \<^verbatim>\<open>found_devices\<close> is unchanged; and
  the ids of \<^verbatim>\<open>found_devices\<close> that are not tracked are ignored: the result is that of the
  scan without them.
\<close>

theorem update_devices_frame:
  assumes "tracker_ok tr"
  shows "\<exists>tr'. update_devices clock found tr = Inr tr'
     \<and> same_devices tr tr' \<and> tracker_ok tr'
     \<and> (\<forall>dev. dev \<notin> set found \<longrightarrow> device_last_seen tr' dev = device_last_seen tr dev)
     \<and> update_devices clock (filter (\<lambda>dev. dev \<in> fst ` set (devices_to_track tr)) found) tr
          = Inr tr'"
proof -
  from assms obtain tr1 k1 tr2 where
    f: "found_loop clock found (map fst (devices_to_track tr), tr, 0)
       = Inr (filter (\<lambda>x. x \<notin> set found) (map fst (devices_to_track tr)), tr1, k1)"
    and sd: "same_devices tr tr1"
    and d2: "devices_to_track tr2 = devices_to_track tr1" and r2: "registered tr2"
    and u: "update_devices clock found tr = Inr (finish tr2)"
    by (rule update_devices_unfold)
  have sd2: "same_devices tr (finish tr2)"
    using sd d2 by (simp add: same_devices_def finish_fields)
  have "distinct (map fst (devices_to_track tr2))"
    using assms sd d2 by (simp add: tracker_ok_def same_devices_def)
  then have ok: "tracker_ok (finish tr2)" using r2 by (rule tracker_ok_finish)
  have "device_last_seen (finish tr2) dev = device_last_seen tr dev" if "dev \<notin> set found" for dev
    using found_loop_devices_frame [OF f, of dev] that d2
    by (simp add: device_last_seen_def finish_fields)
  with u sd2 ok show ?thesis by (simp add: update_devices_filter)
qed


lemma map_of_distinct_iff:
  "distinct (map fst xs) \<Longrightarrow> map_of xs k = Some v \<longleftrightarrow> (k, v) \<in> set xs"
  by (auto dest: map_of_SomeD)

lemma category_of_keys: "category_of tr x \<noteq> None \<longleftrightarrow> x \<in> fst ` set (devices_to_track tr)"
  by (simp add: category_of_def map_of_eq_None_iff)

lemma device_state_category:
  "map_of (devices_to_track tr) dev = Some info \<Longrightarrow>
   device_state tr dev = states (statemachine tr) (category info)"
  by (simp add: device_state_def statemachine_get_state_def)


lemma aggregate_finish:
  assumes "distinct (map fst (devices_to_track tr))"
  shows "aggregate tr =
     (if \<exists>dev \<in> fst ` set (devices_to_track tr). device_state (finish tr) dev = Some STATE_DEVICE_HOME
      then STATE_DEVICE_HOME else STATE_DEVICE_NOT_HOME)"
proof (cases "aggregate tr = STATE_DEVICE_HOME")
  case True
  then obtain dev info where di: "(dev, info) \<in> set (devices_to_track tr)"
    "states (statemachine tr) (category info) = Some STATE_DEVICE_HOME"
    using HOME_neq by (auto simp: aggregate_def split: if_splits)
  then have m: "map_of (devices_to_track (finish tr)) dev = Some info"
    using assms by (simp add: finish_fields)
  have "device_state (finish tr) dev = Some STATE_DEVICE_HOME"
    unfolding device_state_category [OF m] using di(2) True by (simp add: finish_fields)
  moreover have "dev \<in> fst ` set (devices_to_track tr)" using di(1) by force
  ultimately show ?thesis using True by auto
next
  case False
  then have nh: "aggregate tr = STATE_DEVICE_NOT_HOME"
    and none: "\<forall>(dev, info) \<in> set (devices_to_track tr).
       states (statemachine tr) (category info) \<noteq> Some STATE_DEVICE_HOME"
    by (auto simp: aggregate_def split: if_splits)
  have "device_state (finish tr) dev \<noteq> Some STATE_DEVICE_HOME" for dev
  proof (cases "map_of (devices_to_track tr) dev")
    case None
    then show ?thesis by (simp add: device_state_def finish_fields)
  next
    case (Some info)
    then have "(dev, info) \<in> set (devices_to_track tr)" by (rule map_of_SomeD)
    with none have "states (statemachine tr) (category info) \<noteq> Some STATE_DEVICE_HOME" by auto
    moreover have "map_of (devices_to_track (finish tr)) dev = Some info"
      using Some by (simp add: finish_fields)
    ultimately show ?thesis
      using False by (simp add: device_state_category finish_fields)
  qed
  with nh show ?thesis by auto
qed

text \<open>
  C3: every call of \<open>update_devices\<close> ends with a \<^verbatim>\<open>set_state\<close> of
  \<^verbatim>\<open>device.alldevices\<close>, whether the value changes or not; the value is also kept in
  \<^verbatim>\<open>all_devices_state\<close>, and it is home if the entity of some tracked device is home and
  not home otherwise, also when no device is tracked.
\<close>

theorem aggregate_set_every_cycle:
  assumes "tracker_ok tr"
  shows "\<exists>tr' cs. update_devices clock found tr = Inr tr'
     \<and> set_calls (statemachine tr')
         = set_calls (statemachine tr) @ cs @ [(STATE_CATEGORY_ALL_DEVICES, all_devices_state tr')]
     \<and> states (statemachine tr') STATE_CATEGORY_ALL_DEVICES = Some (all_devices_state tr')
     \<and> all_devices_state tr' =
         (if \<exists>dev \<in> fst ` set (devices_to_track tr). device_state tr' dev = Some STATE_DEVICE_HOME
          then STATE_DEVICE_HOME else STATE_DEVICE_NOT_HOME)"
proof -
  let ?keys = "map fst (devices_to_track tr)"
  let ?temp = "filter (\<lambda>x. x \<notin> set found) ?keys"
  from assms obtain tr1 k1 tr2 where
    f: "found_loop clock found (?keys, tr, 0) = Inr (?temp, tr1, k1)"
    and sd: "same_devices tr tr1"
    and d2: "devices_to_track tr2 = devices_to_track tr1"
    and c2: "\<exists>cs. set_calls (statemachine tr2) = set_calls (statemachine tr1) @ cs"
    and u: "update_devices clock found tr = Inr (finish tr2)"
    by (rule update_devices_unfold)
  from found_loop_set_calls [OF f] obtain cs1 where
    "set_calls (statemachine tr1) = set_calls (statemachine tr) @ cs1" by blast
  moreover from c2 obtain cs2 where
    "set_calls (statemachine tr2) = set_calls (statemachine tr1) @ cs2" ..
  ultimately have calls: "set_calls (statemachine (finish tr2))
      = set_calls (statemachine tr) @ (cs1 @ cs2)
          @ [(STATE_CATEGORY_ALL_DEVICES, all_devices_state (finish tr2))]"
    by (simp add: finish_fields)
  have keys: "map fst (devices_to_track tr2) = ?keys"
    using sd d2 by (simp add: same_devices_def)
  then have "distinct (map fst (devices_to_track tr2))"
    using assms by (simp add: tracker_ok_def)
  from aggregate_finish [OF this] have "aggregate tr2 =
     (if \<exists>dev \<in> set (map fst (devices_to_track tr2)).
           device_state (finish tr2) dev = Some STATE_DEVICE_HOME
      then STATE_DEVICE_HOME else STATE_DEVICE_NOT_HOME)"
    by simp
  then have "all_devices_state (finish tr2) =
     (if \<exists>dev \<in> fst ` set (devices_to_track tr). device_state (finish tr2) dev = Some STATE_DEVICE_HOME
      then STATE_DEVICE_HOME else STATE_DEVICE_NOT_HOME)"
    unfolding keys by (simp add: finish_fields)
  moreover have "states (statemachine (finish tr2)) STATE_CATEGORY_ALL_DEVICES
      = Some (all_devices_state (finish tr2))"
    by (simp add: finish_fields)
  ultimately show ?thesis using u calls by blast
qed


lemma own_category_same_devices:
  "same_devices tr tr' \<Longrightarrow> own_category tr dev \<Longrightarrow> own_category tr' dev"
  by (simp add: own_category_def same_devices_category_of same_devices_keys)

lemma absent_device_cycle:
  assumes ok: "tracker_ok tr" and info: "map_of (devices_to_track tr) dev = Some info"
    and own: "own_category tr dev" and absent: "dev \<notin> set found"
  shows "\<exists>tr' j. update_devices clock found tr = Inr tr'
     \<and> device_last_seen tr' dev = Some (last_seen info)
     \<and> device_state tr' dev =
         (if device_state tr dev = Some STATE_DEVICE_HOME
             \<and> to_us (clock j) - to_us (last_seen info) > TIME_SPAN_FOR_ERROR_IN_SCANNING
          then Some STATE_DEVICE_NOT_HOME else device_state tr dev)"
proof -
  let ?keys = "map fst (devices_to_track tr)"
  let ?temp = "filter (\<lambda>x. x \<notin> set found) ?keys"
  let ?c = "category info"
  from ok obtain tr1 k1 tr2 k2 where
    f: "found_loop clock found (?keys, tr, 0) = Inr (?temp, tr1, k1)"
    and sd: "same_devices tr tr1"
    and n: "not_found_loop clock ?temp (tr1, k1) = Inr (tr2, k2)"
    and d2: "devices_to_track tr2 = devices_to_track tr1"
    and u: "update_devices clock found tr = Inr (finish tr2)"
    by (rule update_devices_unfold)
  from ok have dk: "distinct ?keys" by (simp add: tracker_ok_def)
  from info have key: "dev \<in> set ?keys"
    using map_of_keys [of "devices_to_track tr" dev] by simp
  have cat: "category_of tr dev = Some ?c" using info by (simp add: category_of_def)
  from own cat have notall: "?c \<noteq> STATE_CATEGORY_ALL_DEVICES"
    and alone: "\<And>x. x \<in> set ?keys \<Longrightarrow> category_of tr x = Some ?c \<Longrightarrow> x = dev"
    by (auto simp: own_category_def)
  \<comment> \<open>the first loop leaves the device and its category alone\<close>
  have m1: "map_of (devices_to_track tr1) dev = Some info"
    using found_loop_devices_frame [OF f, of dev] absent info by simp
  have "\<not> (\<exists>x \<in> set found \<inter> set ?keys. category_of tr x = Some ?c)"
    using alone absent by blast
  with found_loop_states [OF f, of ?c]
  have s1: "states (statemachine tr1) ?c = states (statemachine tr) ?c" by simp
  \<comment> \<open>the second loop meets the device once\<close>
  have "distinct ?temp" using dk by simp
  moreover have "dev \<in> set ?temp" using key absent by simp
  moreover have "\<forall>x \<in> set ?temp. x \<noteq> dev \<longrightarrow> category_of tr1 x \<noteq> Some ?c"
    using alone by (auto simp: same_devices_category_of [OF sd])
  ultimately obtain j where s2: "states (statemachine tr2) ?c =
     (if states (statemachine tr1) ?c = Some STATE_DEVICE_HOME
         \<and> to_us (clock j) - to_us (last_seen info) > TIME_SPAN_FOR_ERROR_IN_SCANNING
      then Some STATE_DEVICE_NOT_HOME else states (statemachine tr1) ?c)"
    using not_found_loop_own [OF n _ _ m1] by blast
  \<comment> \<open>the aggregate is another entity\<close>
  have m3: "map_of (devices_to_track (finish tr2)) dev = Some info"
    using m1 d2 by (simp add: finish_fields)
  have "device_state (finish tr2) dev = states (statemachine tr2) ?c"
    unfolding device_state_category [OF m3] using notall by (simp add: finish_fields)
  moreover have "device_state tr dev = states (statemachine tr) ?c"
    by (rule device_state_category [OF info])
  moreover have "device_last_seen (finish tr2) dev = Some (last_seen info)"
    using m3 by (simp add: device_last_seen_def)
  ultimately show ?thesis using u s1 s2 by (intro exI [of _ "finish tr2"] exI [of _ j]) simp
qed

lemma update_devices_ok:
  assumes "tracker_ok tr"
  shows "\<exists>tr'. update_devices clock found tr = Inr tr' \<and> same_devices tr tr' \<and> tracker_ok tr'"
proof -
  from assms obtain tr1 tr2 where
    sd: "same_devices tr tr1"
    and d2: "devices_to_track tr2 = devices_to_track tr1" and r2: "registered tr2"
    and u: "update_devices clock found tr = Inr (finish tr2)"
    by (rule update_devices_unfold [where clock = clock and found = found])
  have sd2: "same_devices tr (finish tr2)"
    using sd d2 by (simp add: same_devices_def finish_fields)
  have "distinct (map fst (devices_to_track tr2))"
    using assms sd d2 by (simp add: tracker_ok_def same_devices_def)
  then have "tracker_ok (finish tr2)" using r2 by (rule tracker_ok_finish)
  with u sd2 show ?thesis by blast
qed

lemma cycles_never_seen:
  assumes "tracker_ok tr" "dev \<in> fst ` set (devices_to_track tr)" "own_category tr dev"
    and "device_state tr dev = Some STATE_DEVICE_NOT_HOME"
    and "\<forall>(clock, found) \<in> set cs. dev \<notin> set found"
  shows "\<exists>tr'. cycles cs tr = Inr tr' \<and> device_state tr' dev = Some STATE_DEVICE_NOT_HOME"
  using assms
proof (induction cs arbitrary: tr)
  case Nil
  then show ?case by simp
next
  case (Cons c cs)
  obtain clock found where c: "c = (clock, found)" by (cases c)
  with Cons.prems have absent: "dev \<notin> set found" by simp
  from Cons.prems(2) obtain info where info: "map_of (devices_to_track tr) dev = Some info"
    using map_of_keys [of "devices_to_track tr" dev] by auto
  from absent_device_cycle [OF Cons.prems(1) info Cons.prems(3) absent, of clock]
  obtain tr1 where u: "update_devices clock found tr = Inr tr1"
    and s: "device_state tr1 dev = Some STATE_DEVICE_NOT_HOME"
    using Cons.prems(4) HOME_neq by auto
  from update_devices_ok [OF Cons.prems(1), of clock found] u
  have sd: "same_devices tr tr1" and ok: "tracker_ok tr1" by auto
  have "dev \<in> fst ` set (devices_to_track tr1)"
    using Cons.prems(2) same_devices_keys [OF sd] by simp
  moreover have "own_category tr1 dev" by (rule own_category_same_devices [OF sd Cons.prems(3)])
  moreover have "\<forall>(clock, found) \<in> set cs. dev \<notin> set found" using Cons.prems(5) by simp
  ultimately obtain tr' where "cycles cs tr1 = Inr tr'"
    "device_state tr' dev = Some STATE_DEVICE_NOT_HOME"
    using Cons.IH [OF ok _ _ s] by blast
  with u c show ?case by simp
qed

lemma fold_add_category_states:
  "states (fold (\<lambda>(dev, info). statemachine_add_category (category info) d) devs sm) c =
     (if c \<in> (\<lambda>p. category (snd p)) ` set devs then Some d else states sm c)"
  by (induction devs arbitrary: sm) (auto simp: statemachine_add_category_def)

lemma DeviceTracker_init_fields:
  "devices_to_track (DeviceTracker_init temp sm) =
     map (\<lambda>(dev, n). (dev, \<lparr>name = n, last_seen = default_last_seen,
                       category = STATE_CATEGORY_DEVICE_FORMAT n\<rparr>)) temp"
  "map fst (devices_to_track (DeviceTracker_init temp sm)) = map fst temp"
  by (simp_all add: DeviceTracker_init_def Let_def split_def comp_def)

lemma DeviceTracker_init_states:
  "(dev, info) \<in> set (devices_to_track (DeviceTracker_init temp sm)) \<Longrightarrow>
   states (statemachine (DeviceTracker_init temp sm)) (category info) = Some STATE_DEVICE_DEFAULT"
  unfolding DeviceTracker_init_def Let_def
  by (simp add: fold_add_category_states) force

lemma DeviceTracker_init_ok:
  assumes "distinct (map fst temp)"
  shows "tracker_ok (DeviceTracker_init temp sm)"
  using assms DeviceTracker_init_states [of _ _ temp sm]
  by (auto simp: tracker_ok_def DeviceTracker_init_fields(2))

lemma DeviceTracker_init_device_state:
  assumes "dev \<in> fst ` set temp"
  shows "device_state (DeviceTracker_init temp sm) dev = Some STATE_DEVICE_NOT_HOME"
proof -
  from assms have "dev \<in> fst ` set (devices_to_track (DeviceTracker_init temp sm))"
    by (metis DeviceTracker_init_fields(2) set_map)
  then obtain info where m: "map_of (devices_to_track (DeviceTracker_init temp sm)) dev = Some info"
    using map_of_keys [of "devices_to_track (DeviceTracker_init temp sm)" dev] by auto
  then have "(dev, info) \<in> set (devices_to_track (DeviceTracker_init temp sm))"
    by (rule map_of_SomeD)
  from DeviceTracker_init_states [OF this] show ?thesis
    unfolding device_state_category [OF m] by (simp add: STATE_DEVICE_DEFAULT_def)
qed

text \<open>
  C1, for a device that has its category to itself. First part: when the device is not
  in \<^verbatim>\<open>found_devices\<close>, its \<^verbatim>\<open>last_seen\<close> is unchanged and its entity becomes not home
  exactly when it was home and the clock reading taken for it, minus \<^verbatim>\<open>last_seen\<close>, is
  more than 70 seconds; otherwise the entity keeps its state. Second part: from
  \<^verbatim>\<open>__init__\<close> on, over any number of cycles in which the device is never found, its
  entity is not home.
\<close>

theorem absent_device_debounce:
  "(tracker_ok tr \<and> map_of (devices_to_track tr) dev = Some info \<and> own_category tr dev
      \<and> dev \<notin> set found \<longrightarrow>
      (\<exists>tr' j. update_devices clock found tr = Inr tr'
         \<and> device_last_seen tr' dev = Some (last_seen info)
         \<and> device_state tr' dev =
             (if device_state tr dev = Some STATE_DEVICE_HOME
                 \<and> to_us (clock j) - to_us (last_seen info) > TIME_SPAN_FOR_ERROR_IN_SCANNING
              then Some STATE_DEVICE_NOT_HOME else device_state tr dev)))
   \<and> (distinct (map fst temp) \<and> dev \<in> fst ` set temp
        \<and> own_category (DeviceTracker_init temp sm) dev
        \<and> (\<forall>(clock, found) \<in> set cs. dev \<notin> set found) \<longrightarrow>
        device_state_after cs (DeviceTracker_init temp sm) dev = Inr (Some STATE_DEVICE_NOT_HOME))"
proof (intro conjI impI)
  assume "tracker_ok tr \<and> map_of (devices_to_track tr) dev = Some info \<and> own_category tr dev
      \<and> dev \<notin> set found"
  then show "\<exists>tr' j. update_devices clock found tr = Inr tr'
         \<and> device_last_seen tr' dev = Some (last_seen info)
         \<and> device_state tr' dev =
             (if device_state tr dev = Some STATE_DEVICE_HOME
                 \<and> to_us (clock j) - to_us (last_seen info) > TIME_SPAN_FOR_ERROR_IN_SCANNING
              then Some STATE_DEVICE_NOT_HOME else device_state tr dev)"
    using absent_device_cycle by blast
next
  let ?tr = "DeviceTracker_init temp sm"
  assume a: "distinct (map fst temp) \<and> dev \<in> fst ` set temp \<and> own_category ?tr dev
        \<and> (\<forall>(clock, found) \<in> set cs. dev \<notin> set found)"
  then have "tracker_ok ?tr" by (simp add: DeviceTracker_init_ok)
  moreover from a have "dev \<in> fst ` set (devices_to_track ?tr)"
    by (metis DeviceTracker_init_fields(2) set_map)
  moreover from a have "device_state ?tr dev = Some STATE_DEVICE_NOT_HOME"
    by (simp add: DeviceTracker_init_device_state)
  ultimately obtain tr' where "cycles cs ?tr = Inr tr'"
    "device_state tr' dev = Some STATE_DEVICE_NOT_HOME"
    using cycles_never_seen [of ?tr dev cs] a by blast
  then show "device_state_after cs ?tr dev = Inr (Some STATE_DEVICE_NOT_HOME)"
    by (simp add: device_state_after_def)
qed


lemmas tracker_eval =
  device_state_after_def last_seen_after_def update_devices_def
  found_loop.simps(2) not_found_loop.simps(2) set_state_def set_last_seen_def
  statemachine_set_state_def statemachine_get_state_def statemachine_add_category_def
  DeviceTracker_init_def empty_statemachine_def device_state_def device_last_seen_def
  STATE_DEVICE_HOME_def STATE_DEVICE_NOT_HOME_def STATE_DEVICE_DEFAULT_def
  STATE_CATEGORY_ALL_DEVICES_def STATE_CATEGORY_DEVICE_FORMAT_def
  TIME_SPAN_FOR_ERROR_IN_SCANNING_def default_last_seen_def to_us_def at_second_def Let_def

text \<open>
  C1, as stated for every tracked device, fails for two devices of the same name, which
  share one entity. Both are seen at second 0 and \<open>aa\<close> again at second 50. At second
  100 nothing is found: \<open>aa\<close> is home and was seen 50 seconds ago, yet its entity
  is set to not home, on behalf of \<open>bb\<close>.
\<close>

theorem absent_device_shared_name_counterexample:
  "device_state_after [(at_second 0, [''aa'', ''bb'']), (at_second 50, [''aa''])] two_phones ''aa''
     = Inr (Some STATE_DEVICE_HOME)
   \<and> last_seen_after [(at_second 0, [''aa'', ''bb'']), (at_second 50, [''aa''])] two_phones ''aa''
     = Inr (Some (at_second 50 0))
   \<and> to_us (at_second 100 0) - to_us (at_second 50 0) < TIME_SPAN_FOR_ERROR_IN_SCANNING
   \<and> device_state_after
       [(at_second 0, [''aa'', ''bb'']), (at_second 50, [''aa'']), (at_second 100, [])]
       two_phones ''aa''
     = Inr (Some STATE_DEVICE_NOT_HOME)"
  by (simp add: tracker_eval two_phones_def)


theorem absent_device_debounce_witness:
  "tracker_ok phone_home_tracker \<and> own_category phone_home_tracker ''aa''
   \<and> device_state phone_home_tracker ''aa'' = Some STATE_DEVICE_HOME
   \<and> device_state_after [(at_second 30, [])] phone_home_tracker ''aa''
       = Inr (Some STATE_DEVICE_HOME)
   \<and> device_state_after [(at_second 75, [])] phone_home_tracker ''aa''
       = Inr (Some STATE_DEVICE_NOT_HOME)
   \<and> own_category phone_and_laptop ''bb''
   \<and> device_state_after [(at_second 0, [''aa'']), (at_second 30, []), (at_second 75, [''aa''])]
         phone_and_laptop ''bb''
       = Inr (Some STATE_DEVICE_NOT_HOME)"
  using
    absent_device_debounce [where tr = phone_home_tracker and dev = "''aa''"
      and info = "\<lparr>name = ''phone'', last_seen = at_second 0 0, category = ''device.phone''\<rparr>"
      and found = "[]" and clock = "at_second 30"
      and temp = "[(''aa'', ''phone''), (''bb'', ''laptop'')]" and sm = empty_statemachine
      and cs = "[(at_second 0, [''aa'']), (at_second 30, []), (at_second 75, [''aa''])]"]
    absent_device_debounce [where tr = phone_home_tracker and dev = "''aa''"
      and info = "\<lparr>name = ''phone'', last_seen = at_second 0 0, category = ''device.phone''\<rparr>"
      and found = "[]" and clock = "at_second 75"
      and temp = "[(''aa'', ''phone'')]" and sm = empty_statemachine and cs = "[]"]
  by (simp add: tracker_eval phone_home_tracker_def phone_and_laptop_def tracker_ok_def
      own_category_def category_of_def)


theorem aggregate_set_every_cycle_witness:
  "tracker_ok phone_and_laptop
   \<and> map_sum id all_devices_state (update_devices (at_second 5) [''aa''] phone_and_laptop)
       = Inr STATE_DEVICE_HOME
   \<and> map_sum id all_devices_state (update_devices (at_second 5) [] phone_and_laptop)
       = Inr STATE_DEVICE_NOT_HOME
   \<and> map_sum id (set_calls \<circ> statemachine) (update_devices (at_second 5) [] phone_and_laptop)
       = Inr [(STATE_CATEGORY_ALL_DEVICES, STATE_DEVICE_NOT_HOME)]
   \<and> map_sum id (set_calls \<circ> statemachine)
         (update_devices (at_second 5) [] (DeviceTracker_init [] empty_statemachine))
       = Inr [(STATE_CATEGORY_ALL_DEVICES, STATE_DEVICE_NOT_HOME)]"
  using aggregate_set_every_cycle [of phone_and_laptop "at_second 5" "[''aa'']"]
    aggregate_set_every_cycle [of phone_and_laptop "at_second 5" "[]"]
  by (simp add: tracker_eval phone_and_laptop_def tracker_ok_def)

theorem update_devices_frame_witness:
  "tracker_ok phone_and_laptop
   \<and> update_devices (at_second 5) [''zz'', ''aa''] phone_and_laptop
       = update_devices (at_second 5) [''aa''] phone_and_laptop
   \<and> map_sum id (map fst \<circ> devices_to_track)
         (update_devices (at_second 5) [''zz'', ''aa''] phone_and_laptop)
       = Inr [''aa'', ''bb'']
   \<and> last_seen_after [(at_second 5, [''zz'', ''aa''])] phone_and_laptop ''bb''
       = Inr (Some default_last_seen)"
  using update_devices_frame [of phone_and_laptop "at_second 5" "[''zz'', ''aa'']"]
  by (simp add: tracker_eval phone_and_laptop_def tracker_ok_def)

section \<open>Properties of the time event listener\<close>

lemma lex_step:
  fixes f :: "'a \<Rightarrow> int"
  assumes R: "\<And>a b c. R a b \<Longrightarrow> \<not> R c b \<Longrightarrow> R a c"
    and ab: "f a < f b \<or> (f a = f b \<and> R a b)"
    and cb: "\<not> (f c < f b \<or> (f c = f b \<and> R c b))"
  shows "f a < f c \<or> (f a = f c \<and> R a c)"
proof (cases "f a" "f c" rule: linorder_cases)
  case less
  then show ?thesis by simp
next
  case equal
  with ab cb have "R a b" "\<not> R c b" by auto
  with R equal show ?thesis by blast
next
  case greater
  with ab cb show ?thesis by auto
qed

lemma datetime_less_le_trans:
  fixes a b c :: datetime
  assumes "datetime_less a b" "\<not> datetime_less c b"
  shows "datetime_less a c"
proof -
  define r4 where "r4 = (\<lambda>(a :: datetime) (b :: datetime). microsecond a < microsecond b)"
  define r3 where "r3 = (\<lambda>(a :: datetime) (b :: datetime). second a < second b \<or> (second a = second b \<and> r4 a b))"
  define r2 where "r2 = (\<lambda>(a :: datetime) (b :: datetime). minute a < minute b \<or> (minute a = minute b \<and> r3 a b))"
  define r1 where "r1 = (\<lambda>(a :: datetime) (b :: datetime). hour a < hour b \<or> (hour a = hour b \<and> r2 a b))"
  define r0 where "r0 = (\<lambda>(a :: datetime) (b :: datetime). ordinal a < ordinal b \<or> (ordinal a = ordinal b \<and> r1 a b))"
  have t4: "r4 a b \<Longrightarrow> \<not> r4 c b \<Longrightarrow> r4 a c" for a b c :: datetime
    by (simp add: r4_def)
  have t3: "r3 a b \<Longrightarrow> \<not> r3 c b \<Longrightarrow> r3 a c" for a b c :: datetime
    unfolding r3_def by (rule lex_step [where R = r4 and f = second and b = b]) (rule t4)
  have t2: "r2 a b \<Longrightarrow> \<not> r2 c b \<Longrightarrow> r2 a c" for a b c :: datetime
    unfolding r2_def by (rule lex_step [where R = r3 and f = minute and b = b]) (rule t3)
  have t1: "r1 a b \<Longrightarrow> \<not> r1 c b \<Longrightarrow> r1 a c" for a b c :: datetime
    unfolding r1_def by (rule lex_step [where R = r2 and f = hour and b = b]) (rule t2)
  have t0: "r0 a b \<Longrightarrow> \<not> r0 c b \<Longrightarrow> r0 a c" for a b c :: datetime
    unfolding r0_def by (rule lex_step [where R = r1 and f = ordinal and b = b]) (rule t1)
  have "datetime_less x y = r0 x y" for x y :: datetime
    by (simp add: datetime_less_def r0_def r1_def r2_def r3_def r4_def)
  with assms t0 show ?thesis by blast
qed

lemma datetime_less_ordinal: "ordinal a < ordinal b \<Longrightarrow> datetime_less a b"
  by (simp add: datetime_less_def)

lemma datetime_less_same_time:
  "hour a = hour b \<Longrightarrow> minute a = minute b \<Longrightarrow> second a = second b \<Longrightarrow>
   microsecond a = microsecond b \<Longrightarrow> datetime_less a b \<longleftrightarrow> ordinal a < ordinal b"
  by (auto simp: datetime_less_def)

lemma good_day_exists:
  fixes d o0 :: int
  assumes "0 \<le> d" "d < 7"
  shows "\<exists>j::nat. 2 \<le> j \<and> j \<le> 8 \<and> (o0 + int j + 6) mod 7 = d"
proof -
  define r where "r = (d - o0 - 8) mod 7"
  have r: "0 \<le> r" "r < 7" by (simp_all add: r_def)
  have "(o0 + (2 + r) + 6) mod 7 = (o0 + 8 + (d - o0 - 8) mod 7) mod 7"
    by (simp add: r_def algebra_simps)
  also have "\<dots> = (o0 + 8 + (d - o0 - 8)) mod 7" by (rule mod_add_right_eq)
  also have "\<dots> = d" using assms by simp
  finally have "(o0 + int (2 + nat r) + 6) mod 7 = d" using r by simp
  moreover have "2 \<le> 2 + nat r" "2 + nat r \<le> 8" using r by simp_all
  ultimately show ?thesis by blast
qed


lemma candidate_fields:
  "ordinal (candidate h m s o0 i) = o0 + int i" "hour (candidate h m s o0 i) = h"
  "minute (candidate h m s o0 i) = m" "second (candidate h m s o0 i) = s"
  "microsecond (candidate h m s o0 i) = 0"
  by (simp_all add: candidate_def)

lemma add_one_day_candidate:
  "o0 + int i + 1 \<le> MAXORDINAL \<Longrightarrow>
   add_one_day (candidate h m s o0 i) = Inr (candidate h m s o0 (Suc i))"
  by (simp add: add_one_day_def candidate_def add.commute add.left_commute)

lemma matches_less_candidate:
  "matches h m s days t \<Longrightarrow> datetime_less t (candidate h m s o0 i) \<longleftrightarrow> ordinal t < o0 + int i"
  by (simp add: matches_def datetime_less_same_time candidate_fields)

lemma matches_eq_candidate:
  "matches h m s days t \<Longrightarrow> ordinal t = o0 + int i \<Longrightarrow> t = candidate h m s o0 i"
  by (cases t) (simp add: matches_def candidate_def)

lemma schedule_loop_exits:
  fixes i j :: nat
  assumes mono: "\<forall>k. \<not> datetime_less (clock (Suc k)) (clock k)"
    and near: "\<forall>k. ordinal (clock k) \<le> o0 + 1"
    and good: "2 \<le> j" "weekday (candidate h m s o0 j) \<in> set days" "o0 + int j \<le> MAXORDINAL"
    and le: "i \<le> j"
    and past: "\<forall>t. matches h m s days t \<and> ordinal t < o0 + int i
                  \<longrightarrow> datetime_less t (clock (Suc i))"
  shows "\<exists>T k. schedule_loop clock days (candidate h m s o0 i) (Suc i) = Inr T
     \<and> matches h m s days T \<and> \<not> datetime_less T (clock k)
     \<and> (\<forall>t. matches h m s days t \<and> \<not> datetime_less t (clock k) \<longrightarrow> \<not> datetime_less t T)"
  using le past
proof (induction "j - i" arbitrary: i rule: less_induct)
  case less
  let ?T = "candidate h m s o0 i"
  show ?case
  proof (cases "datetime_less ?T (clock (Suc i)) \<or> weekday ?T \<notin> set days")
    case False
    then have run: "schedule_loop clock days ?T (Suc i) = Inr ?T"
      by (subst schedule_loop.simps) simp
    have m: "matches h m s days ?T" using False by (simp add: matches_def candidate_fields)
    have "\<not> datetime_less t ?T" if t: "matches h m s days t" "\<not> datetime_less t (clock (Suc i))" for t
    proof
      assume "datetime_less t ?T"
      then have "ordinal t < o0 + int i" using t(1) by (simp add: matches_less_candidate)
      with less.prems(2) t show False by blast
    qed
    with run m False show ?thesis by blast
  next
    case True
    have "i \<noteq> j"
    proof
      assume ij: "i = j"
      have "ordinal (clock (Suc i)) \<le> o0 + 1" using near by simp
      also have "\<dots> < ordinal ?T" using good(1) ij by (simp add: candidate_fields)
      finally have "\<not> datetime_less ?T (clock (Suc i))" by (auto simp: datetime_less_def)
      with True good(2) ij show False by simp
    qed
    with less.prems(1) have lt: "i < j" by simp
    then have "o0 + int i + 1 \<le> MAXORDINAL" using good(3) by simp
    then have step: "schedule_loop clock days ?T (Suc i)
        = schedule_loop clock days (candidate h m s o0 (Suc i)) (Suc (Suc i))"
      using True by (subst schedule_loop.simps) (simp add: add_one_day_candidate)
    have past': "\<forall>t. matches h m s days t \<and> ordinal t < o0 + int (Suc i)
                  \<longrightarrow> datetime_less t (clock (Suc (Suc i)))"
    proof (intro allI impI)
      fix t assume t: "matches h m s days t \<and> ordinal t < o0 + int (Suc i)"
      have "datetime_less t (clock (Suc i))"
      proof (cases "ordinal t < o0 + int i")
        case True
        with less.prems(2) t show ?thesis by blast
      next
        case False
        with t have "ordinal t = o0 + int i" by simp
        with t have eq: "t = ?T" by (simp add: matches_eq_candidate)
        with t have "weekday ?T \<in> set days" by (simp add: matches_def)
        with \<open>datetime_less ?T (clock (Suc i)) \<or> weekday ?T \<notin> set days\<close> eq
        show ?thesis by simp
      qed
      then show "datetime_less t (clock (Suc (Suc i)))"
        using mono by (blast intro: datetime_less_le_trans)
    qed
    have "j - Suc i < j - i" using lt by simp
    from less.hyps [OF this _ past'] lt show ?thesis unfolding step by simp
  qed
qed

text \<open>
  C7: for a time of day in range and a schedule with at least one weekday among its
  days, on a clock that does not go backwards and does not pass the end of the next
  day while \<open>schedule\<close> runs, eight days or more before \<^verbatim>\<open>datetime.max\<close>:
  \<open>schedule\<close> returns and registers the firing at a datetime \<open>T\<close> with the
  configured hour, minute and second, microsecond 0 and a weekday of the schedule,
  that is not before the last reading of the clock, and no datetime of that form which
  is not before that reading is earlier than \<open>T\<close>.
\<close>

theorem schedule_next_valid_day:
  assumes time: "0 \<le> listener_hour l" "listener_hour l < 24"
      "0 \<le> listener_minute l" "listener_minute l < 60"
      "0 \<le> listener_second l" "listener_second l < 60"
    and days: "\<exists>d \<in> set (schedule_days l). 0 \<le> d \<and> d < 7"
    and mono: "\<forall>k. \<not> datetime_less (clock (Suc k)) (clock k)"
    and near: "\<forall>k. ordinal (clock k) \<le> ordinal (clock 0) + 1"
    and range: "ordinal (clock 0) + 8 \<le> MAXORDINAL"
  shows "\<exists>T k. schedule l clock = Inr T
     \<and> hour T = listener_hour l \<and> minute T = listener_minute l \<and> second T = listener_second l
     \<and> microsecond T = 0 \<and> weekday T \<in> set (schedule_days l)
     \<and> \<not> datetime_less T (clock k)
     \<and> (\<forall>t. hour t = listener_hour l \<and> minute t = listener_minute l
             \<and> second t = listener_second l \<and> microsecond t = 0
             \<and> weekday t \<in> set (schedule_days l) \<and> \<not> datetime_less t (clock k)
           \<longrightarrow> \<not> datetime_less t T)"
proof -
  let ?h = "listener_hour l" and ?m = "listener_minute l" and ?s = "listener_second l"
  let ?o = "ordinal (clock 0)" and ?days = "schedule_days l"
  from days obtain d where d: "d \<in> set ?days" "0 \<le> d" "d < 7" by blast
  from good_day_exists [OF d(2,3), of ?o] obtain j :: nat where
    j: "2 \<le> j" "j \<le> 8" "(?o + int j + 6) mod 7 = d" by blast
  have g2: "weekday (candidate ?h ?m ?s ?o j) \<in> set ?days"
    using j(3) d(1) by (simp add: weekday_def candidate_fields)
  have g3: "?o + int j \<le> MAXORDINAL" using j(2) range by simp
  have rep: "datetime_replace (clock 0) ?h ?m ?s 0 = Inr (candidate ?h ?m ?s ?o 0)"
    using time by (simp add: datetime_replace_def candidate_def)
  have past: "\<forall>t. matches ?h ?m ?s ?days t \<and> ordinal t < ?o + int 0
                  \<longrightarrow> datetime_less t (clock (Suc 0))"
  proof (intro allI impI)
    fix t assume "matches ?h ?m ?s ?days t \<and> ordinal t < ?o + int 0"
    then have "datetime_less t (clock 0)" by (simp add: datetime_less_ordinal)
    then show "datetime_less t (clock (Suc 0))"
      using mono by (blast intro: datetime_less_le_trans)
  qed
  from schedule_loop_exits [OF mono near j(1) g2 g3 _ past]
  obtain T k where "schedule_loop clock ?days (candidate ?h ?m ?s ?o 0) (Suc 0) = Inr T"
    "matches ?h ?m ?s ?days T" "\<not> datetime_less T (clock k)"
    "\<forall>t. matches ?h ?m ?s ?days t \<and> \<not> datetime_less t (clock k) \<longrightarrow> \<not> datetime_less t T"
    by blast
  then show ?thesis
    using rep by (intro exI [of _ T] exI [of _ k]) (simp add: schedule_def matches_def)
qed

theorem schedule_next_valid_day_witness:
  "(\<exists>d \<in> set (schedule_days monday_friday_0830). 0 \<le> d \<and> d < 7)
   \<and> (\<forall>k. \<not> datetime_less (wednesday_noon (Suc k)) (wednesday_noon k))
   \<and> (\<forall>k. ordinal (wednesday_noon k) \<le> ordinal (wednesday_noon 0) + 1)
   \<and> ordinal (wednesday_noon 0) + 8 \<le> MAXORDINAL
   \<and> schedule monday_friday_0830 wednesday_noon
       = Inr \<lparr>ordinal = 735236, hour = 8, minute = 30, second = 0, microsecond = 0\<rparr>
   \<and> weekday \<lparr>ordinal = 735236, hour = 8, minute = 30, second = 0, microsecond = 0\<rparr> = 4"
  using schedule_next_valid_day [of monday_friday_0830 wednesday_noon]
  by (simp add: monday_friday_0830_def wednesday_noon_def datetime_less_def MAXORDINAL_def
      schedule_def datetime_replace_def schedule_loop.simps weekday_def add_one_day_def)

section \<open>Properties of the ordered set\<close>

lemma linked_append:
  "linked nf pf (xs @ y # ys) \<longleftrightarrow> linked nf pf (xs @ [y]) \<and> linked nf pf (y # ys)"
proof (induction xs)
  case Nil
  then show ?case by simp
next
  case (Cons x xs)
  then show ?case by (cases xs) auto
qed

lemma linked_cong:
  "\<forall>x \<in> set (butlast c). nf' x = nf x \<Longrightarrow> \<forall>x \<in> set (tl c). pf' x = pf x \<Longrightarrow>
   linked nf' pf' c = linked nf pf c"
  by (induction nf pf c rule: linked.induct) auto

lemma linked_insert_last:
  assumes l: "linked nf pf (r @ [z])" and r: "r \<noteq> []" "hd r = z" "distinct r" "n \<notin> set r"
  shows "linked ((nf(n := z))(last r := n)) ((pf(n := last r))(z := n)) (r @ [n, z])"
proof -
  from r(1) obtain b l where rb: "r = b @ [l]" by (metis rev_exhaust)
  let ?nf = "(nf(n := z))(l := n)" and ?pf = "(pf(n := l))(z := n)"
  have ln: "l \<noteq> n" "z \<noteq> n" using r rb by (auto simp: hd_append split: if_splits)
  from l rb have old: "linked nf pf (b @ [l])" using linked_append [of nf pf b l "[z]"] by simp
  have "\<forall>x \<in> set (butlast (b @ [l])). ?nf x = nf x" using r rb by auto
  moreover have "\<forall>x \<in> set (tl (b @ [l])). ?pf x = pf x"
  proof
    fix x assume x: "x \<in> set (tl (b @ [l]))"
    then have "x \<in> set r" using rb by (metis list.set_sel(2) tl_Nil)
    with r have "x \<noteq> n" by auto
    moreover have "x \<noteq> z" using x r rb by (cases b) auto
    ultimately show "?pf x = pf x" by simp
  qed
  ultimately have "linked ?nf ?pf (b @ [l])" using old linked_cong [of "b @ [l]" ?nf nf ?pf pf] by simp
  moreover have "linked ?nf ?pf [l, n]" using ln by simp
  ultimately have "linked ?nf ?pf (b @ [l, n])" using linked_append [of ?nf ?pf b l "[n]"] by simp
  moreover have "linked ?nf ?pf [n, z]" using ln by simp
  ultimately have "linked ?nf ?pf ((b @ [l]) @ [n, z])"
    using linked_append [of ?nf ?pf "b @ [l]" n "[z]"] by simp
  then show ?thesis using rb by simp
qed

lemma linked_last:
  assumes "linked nf pf (r @ [z])" "r \<noteq> []"
  shows "pf z = last r" "nf (last r) = z"
proof -
  from assms(2) obtain b l where rb: "r = b @ [l]" by (metis rev_exhaust)
  with assms(1) have "linked nf pf [l, z]" using linked_append [of nf pf b l "[z]"] by simp
  then show "pf z = last r" "nf (last r) = z" using rb by simp_all
qed

lemma linked_remove:
  assumes l: "linked nf pf (xs @ a # ys)" and ne: "xs \<noteq> []" "ys \<noteq> []"
    and d: "distinct (xs @ a # butlast ys)" and ring: "last ys = hd xs"
  shows "pf a = last xs" "nf a = hd ys"
    "linked (nf(last xs := hd ys)) (pf(hd ys := last xs)) (xs @ ys)"
proof -
  from ne obtain b p where xb: "xs = b @ [p]" by (metis rev_exhaust)
  from ne obtain nx t where yt: "ys = nx # t" by (cases ys) auto
  from l have l1: "linked nf pf (xs @ [a])" and l2: "linked nf pf (a # ys)"
    using linked_append [of nf pf xs a ys] by simp_all
  from l1 xb have l3: "linked nf pf (b @ [p])" and l4: "linked nf pf [p, a]"
    using linked_append [of nf pf b p "[a]"] by simp_all
  from l2 yt have l5: "linked nf pf (nx # t)" and l6: "nf a = nx" by simp_all
  from l4 show "pf a = last xs" using xb by simp
  from l6 show "nf a = hd ys" using yt by simp
  let ?nf = "nf(p := nx)" and ?pf = "pf(nx := p)"
  have nx_notin: "nx \<notin> set (tl xs)"
  proof (cases t)
    case Nil
    then have "nx = hd xs" using ring yt by simp
    then show ?thesis using d ne by (cases xs) auto
  next
    case (Cons t1 t2)
    then have "nx \<in> set (butlast ys)" using yt by simp
    then show ?thesis using d ne by (cases xs) auto
  qed
  have "\<forall>x \<in> set (butlast (b @ [p])). ?nf x = nf x" using d xb by auto
  moreover have "\<forall>x \<in> set (tl (b @ [p])). ?pf x = pf x" using nx_notin xb by auto
  ultimately have a1: "linked ?nf ?pf (b @ [p])"
    using l3 linked_cong [of "b @ [p]" ?nf nf ?pf pf] by simp
  have "\<forall>x \<in> set (butlast (nx # t)). ?nf x = nf x" using d xb yt by auto
  moreover have "\<forall>x \<in> set (tl (nx # t)). ?pf x = pf x"
  proof
    fix x assume "x \<in> set (tl (nx # t))"
    then have x: "x \<in> set t" by simp
    then obtain t1 t2 where t: "t = t1 # t2" by (cases t) auto
    have "x \<noteq> nx"
    proof (cases "x \<in> set (butlast t)")
      case True
      then show ?thesis using d yt t by auto
    next
      case False
      with x have "x = last t" by (metis append_butlast_last_id empty_iff list.set(1) set_ConsD
            rotate1.simps(2) set_rotate1)
      then have "x = hd xs" using ring yt t by simp
      moreover have "nx \<in> set (butlast ys)" using yt t by simp
      ultimately show ?thesis using d ne by (cases xs) auto
    qed
    then show "?pf x = pf x" by simp
  qed
  ultimately have a2: "linked ?nf ?pf (nx # t)"
    using l5 linked_cong [of "nx # t" ?nf nf ?pf pf] by simp
  have "linked ?nf ?pf (p # nx # t)" using a2 by simp
  with a1 have "linked ?nf ?pf (b @ p # nx # t)"
    using linked_append [of ?nf ?pf b p "nx # t"] by simp
  then show "linked (nf(last xs := hd ys)) (pf(hd ys := last xs)) (xs @ ys)"
    using xb yt by simp
qed

lemma iter_from_linked:
  "linked (\<lambda>a. node_next (h a)) pf (x # as @ [0]) \<Longrightarrow> 0 \<notin> set as \<Longrightarrow>
   iter_from h (node_next (h x)) = Some (map (\<lambda>a. node_key (h a)) as)"
proof (induction as arbitrary: x)
  case Nil
  then show ?case by (simp add: iter_from.simps)
next
  case (Cons a as)
  then have "node_next (h x) = a" "a \<noteq> 0"
    "linked (\<lambda>a. node_next (h a)) pf (a # as @ [0])" "0 \<notin> set as" by auto
  with Cons.IH [of a] show ?case by (subst iter_from.simps) simp
qed


lemma ring_inv_init: "ring_inv OrderedSet_init []"
  by (simp add: ring_inv_def OrderedSet_init_def)

lemma ring_inv_iter:
  assumes "ring_inv os cells"
  shows "iter os = Some (map (\<lambda>c. Some (snd c)) cells)"
proof -
  from assms have l: "linked (\<lambda>a. node_next (heap os a)) (\<lambda>a. node_prev (heap os a))
      (0 # map fst cells @ [0])"
    and pos: "0 \<notin> set (map fst cells)"
    and keys: "\<forall>(a, k) \<in> set cells. node_key (heap os a) = Some k"
    by (auto simp: ring_inv_def)
  from iter_from_linked [OF l pos]
  have "iter os = Some (map (\<lambda>a. node_key (heap os a)) (map fst cells))" by (simp add: iter_def)
  also have "map (\<lambda>a. node_key (heap os a)) (map fst cells) = map (\<lambda>c. Some (snd c)) cells"
    using keys by (auto simp: split_def)
  finally show ?thesis .
qed

lemma ring_inv_dom: "ring_inv os cells \<Longrightarrow> dom (key_map os) = snd ` set cells"
  by (force simp: ring_inv_def dom_def)

lemma add_present: "k \<in> dom (key_map os) \<Longrightarrow> add k os = os"
  by (simp add: add_def)

lemma ring_inv_add:
  assumes inv: "ring_inv os cells" and new: "k \<notin> dom (key_map os)"
  shows "ring_inv (add k os) (cells @ [(fresh os, k)])"
proof -
  let ?h = "heap os" and ?n = "fresh os" and ?r = "0 # map fst cells"
  let ?nf = "\<lambda>a. node_next (?h a)" and ?pf = "\<lambda>a. node_prev (?h a)"
  let ?l = "last ?r"
  from inv have fresh: "0 < ?n" and da: "distinct (map fst cells)" and dk: "distinct (map snd cells)"
    and cell: "\<forall>(a, k) \<in> set cells. 0 < a \<and> a < ?n \<and> node_key (?h a) = Some k"
    and km: "\<forall>k a. key_map os k = Some a \<longleftrightarrow> (a, k) \<in> set cells"
    and l: "linked ?nf ?pf (?r @ [0])"
    by (simp_all add: ring_inv_def)
  have knew: "k \<notin> snd ` set cells" using new ring_inv_dom [OF inv] by simp
  have dr: "distinct ?r" using da cell by auto
  have nr: "?n \<notin> set ?r" using fresh cell by auto
  have curr: "?pf 0 = ?l" using linked_last(1) [OF l] by simp
  have ln: "?l \<noteq> ?n" using nr by (metis last_in_set list.distinct(1))
  define h3 where "h3 = heap (add k os)"
  have h3: "h3 = ((?h(?n := \<lparr>node_key = Some k, node_prev = ?l, node_next = 0\<rparr>))
        (?l := (if ?l = ?n then \<lparr>node_key = Some k, node_prev = ?l, node_next = 0\<rparr> else ?h ?l)
                 \<lparr>node_next := ?n\<rparr>))
        (0 := (if ?l = 0 then (?h 0)\<lparr>node_next := ?n\<rparr> else ?h 0)\<lparr>node_prev := ?n\<rparr>)"
    using new fresh ln curr unfolding h3_def add_def Let_def by (auto simp: fun_upd_def)
  have nf': "(\<lambda>a. node_next (h3 a)) = (?nf(?n := 0))(?l := ?n)"
    using fresh ln by (auto simp: h3 fun_eq_iff)
  have pf': "(\<lambda>a. node_prev (h3 a)) = (?pf(?n := ?l))(0 := ?n)"
    using fresh ln by (auto simp: h3 fun_eq_iff)
  have key': "node_key (h3 a) = (if a = ?n then Some k else node_key (?h a))" for a
    using fresh ln by (auto simp: h3)
  have "linked (\<lambda>a. node_next (h3 a)) (\<lambda>a. node_prev (h3 a)) (?r @ [?n, 0])"
    unfolding nf' pf' by (rule linked_insert_last [OF l _ _ dr nr]) simp_all
  then have link: "linked (\<lambda>a. node_next (h3 a)) (\<lambda>a. node_prev (h3 a))
      (0 # map fst (cells @ [(?n, k)]) @ [0])" by simp
  have f': "fresh (add k os) = Suc ?n" and km': "key_map (add k os) = (key_map os)(k \<mapsto> ?n)"
    using new by (simp_all add: add_def Let_def)
  have "distinct (map fst (cells @ [(?n, k)]))" using da nr by auto
  moreover have "distinct (map snd (cells @ [(?n, k)]))" using dk knew by auto
  moreover have "\<forall>(a, k') \<in> set (cells @ [(?n, k)]).
      0 < a \<and> a < Suc ?n \<and> node_key (h3 a) = Some k'"
    using cell fresh by (auto simp: key')
  moreover have "\<forall>k' a. ((key_map os)(k \<mapsto> ?n)) k' = Some a \<longleftrightarrow> (a, k') \<in> set (cells @ [(?n, k)])"
  proof (intro allI)
    fix k' a
    show "((key_map os)(k \<mapsto> ?n)) k' = Some a \<longleftrightarrow> (a, k') \<in> set (cells @ [(?n, k)])"
    proof (cases "k' = k")
      case True
      then show ?thesis using knew by force
    next
      case False
      then show ?thesis using km by simp
    qed
  qed
  ultimately show ?thesis
    using link unfolding ring_inv_def f' km' h3_def [symmetric] by simp
qed

lemma ring_inv_discard:
  assumes inv: "ring_inv os cells"
  shows "ring_inv (discard k os) (filter (\<lambda>c. snd c \<noteq> k) cells)"
proof (cases "key_map os k")
  case None
  then have "k \<notin> snd ` set cells" using inv by (force simp: ring_inv_def)
  then have "filter (\<lambda>c. snd c \<noteq> k) cells = cells" by (auto simp: filter_id_conv)
  with None inv show ?thesis by (simp add: discard_def)
next
  case (Some a)
  let ?h = "heap os"
  let ?nf = "\<lambda>a. node_next (?h a)" and ?pf = "\<lambda>a. node_prev (?h a)"
  from inv have fresh: "0 < fresh os" and da: "distinct (map fst cells)"
    and dk: "distinct (map snd cells)"
    and cell: "\<forall>(a, k) \<in> set cells. 0 < a \<and> a < fresh os \<and> node_key (?h a) = Some k"
    and km: "\<forall>k a. key_map os k = Some a \<longleftrightarrow> (a, k) \<in> set cells"
    and l: "linked ?nf ?pf (0 # map fst cells @ [0])"
    by (simp_all add: ring_inv_def)
  from Some km have "(a, k) \<in> set cells" by simp
  then obtain c1 c2 where cells: "cells = c1 @ (a, k) # c2" by (meson split_list)
  have k1: "k \<notin> snd ` set c1" and k2: "k \<notin> snd ` set c2" using dk cells by auto
  then have "filter (\<lambda>c. snd c \<noteq> k) c1 = c1" "filter (\<lambda>c. snd c \<noteq> k) c2 = c2"
    by (auto simp: filter_id_conv)
  then have filt: "filter (\<lambda>c. snd c \<noteq> k) cells = c1 @ c2"
    using cells by simp
  let ?xs = "0 # map fst c1" and ?ys = "map fst c2 @ [0]"
  let ?p = "last ?xs" and ?nx = "hd ?ys"
  have chain: "0 # map fst cells @ [0] = ?xs @ a # ?ys" using cells by simp
  have d: "distinct (?xs @ a # butlast ?ys)" using da cell cells by auto
  from l have l': "linked ?nf ?pf (?xs @ a # ?ys)" unfolding chain .
  have pa: "?pf a = ?p" and na: "?nf a = ?nx"
    and link: "linked (?nf(?p := ?nx)) (?pf(?nx := ?p)) (?xs @ ?ys)"
    using linked_remove [OF l' _ _ d] by simp_all
  define h2 where "h2 = heap (discard k os)"
  have h2: "h2 = (?h(?p := (?h ?p)\<lparr>node_next := ?nx\<rparr>))
      (?nx := (if ?nx = ?p then (?h ?p)\<lparr>node_next := ?nx\<rparr> else ?h ?nx)\<lparr>node_prev := ?p\<rparr>)"
    using Some pa na unfolding h2_def discard_def Let_def by (auto simp: fun_upd_def)
  have nf': "(\<lambda>a. node_next (h2 a)) = ?nf(?p := ?nx)" by (auto simp: h2 fun_eq_iff)
  have pf': "(\<lambda>a. node_prev (h2 a)) = ?pf(?nx := ?p)" by (auto simp: h2 fun_eq_iff)
  have key': "node_key (h2 x) = node_key (?h x)" for x by (auto simp: h2)
  have f': "fresh (discard k os) = fresh os"
    and km': "key_map (discard k os) = (key_map os)(k := None)"
    using Some by (simp_all add: discard_def Let_def)
  have "linked (\<lambda>a. node_next (h2 a)) (\<lambda>a. node_prev (h2 a)) (0 # map fst (c1 @ c2) @ [0])"
    unfolding nf' pf' using link by simp
  moreover have "distinct (map fst (c1 @ c2))" "distinct (map snd (c1 @ c2))"
    using da dk cells by auto
  moreover have "\<forall>(a, k') \<in> set (c1 @ c2). 0 < a \<and> a < fresh os \<and> node_key (h2 a) = Some k'"
    using cell cells by (auto simp: key')
  moreover have "\<forall>k' x. ((key_map os)(k := None)) k' = Some x \<longleftrightarrow> (x, k') \<in> set (c1 @ c2)"
  proof (intro allI)
    fix k' x
    show "((key_map os)(k := None)) k' = Some x \<longleftrightarrow> (x, k') \<in> set (c1 @ c2)"
    proof (cases "k' = k")
      case True
      then show ?thesis using k1 k2 by force
    next
      case False
      then show ?thesis using km cells by auto
    qed
  qed
  ultimately show ?thesis
    using fresh unfolding filt ring_inv_def f' km' h2_def [symmetric] by simp
qed

lemma ring_inv_exec_op:
  assumes "ring_inv os cells"
  shows "\<exists>cells'. ring_inv (exec_op opn os) cells'
     \<and> map snd cells' = ordered_op opn (map snd cells)"
proof (cases opn)
  case (Add k)
  show ?thesis
  proof (cases "k \<in> dom (key_map os)")
    case True
    then have "k \<in> set (map snd cells)" using ring_inv_dom [OF assms] by simp
    with True assms Add show ?thesis by (auto simp: add_present)
  next
    case False
    then have "k \<notin> set (map snd cells)" using ring_inv_dom [OF assms] by simp
    with ring_inv_add [OF assms False] Add show ?thesis by (intro exI [of _ "cells @ [(fresh os, k)]"]) simp
  qed
next
  case (Discard k)
  have "map snd (filter (\<lambda>c. snd c \<noteq> k) cells) = removeAll k (map snd cells)"
    by (induction cells) auto
  with ring_inv_discard [OF assms, of k] Discard show ?thesis by auto
qed

lemma ring_inv_fold:
  assumes "ring_inv os cells"
  shows "\<exists>cells'. ring_inv (fold exec_op ops os) cells'
     \<and> map snd cells' = fold ordered_op ops (map snd cells)"
  using assms
proof (induction ops arbitrary: os cells)
  case Nil
  then show ?case by auto
next
  case (Cons opn ops)
  from ring_inv_exec_op [OF Cons.prems, of opn] obtain c1 where
    "ring_inv (exec_op opn os) c1" "map snd c1 = ordered_op opn (map snd cells)" by blast
  with Cons.IH [of "exec_op opn os" c1] show ?case by auto
qed

lemma fold_add_first_occurrences:
  "fold ordered_op (map Add ks) [] = rev (remdups (rev ks))"
proof (induction ks rule: rev_induct)
  case Nil
  then show ?case by simp
next
  case (snoc k ks)
  have "set (rev (remdups (rev ks))) = set ks" by simp
  with snoc show ?case by simp
qed

text \<open>
  C10: iterating an \<^verbatim>\<open>OrderedSet\<close> built by any calls of \<^verbatim>\<open>add\<close> and
  \<^verbatim>\<open>discard\<close> yields its elements in the order they were added (an element that was
  discarded and added again counts from its last addition); built by \<^verbatim>\<open>add\<close> alone, it
  yields the elements in the order of their first addition; and \<^verbatim>\<open>add\<close> of a key that is
  in the set leaves the set, its nodes and its order as they were.
\<close>

theorem ordered_set_insertion_order:
  "iter (fold exec_op ops OrderedSet_init) = Some (map Some (fold ordered_op ops []))
   \<and> iter (fold add ks OrderedSet_init) = Some (map Some (rev (remdups (rev ks))))
   \<and> (k \<in> dom (key_map os) \<longrightarrow> add k os = os)"
proof (intro conjI impI)
  from ring_inv_fold [OF ring_inv_init, of ops] obtain cells where
    c: "ring_inv (fold exec_op ops OrderedSet_init) cells" "map snd cells = fold ordered_op ops []"
    by auto
  from ring_inv_iter [OF c(1)] c(2)
  show "iter (fold exec_op ops OrderedSet_init) = Some (map Some (fold ordered_op ops []))"
    by (metis (no_types, lifting) map_map comp_def map_eq_conv)
next
  have e: "fold exec_op (map Add ks) s = fold add ks s" for s
    by (induction ks arbitrary: s) auto
  from ring_inv_fold [OF ring_inv_init, of "map Add ks"] obtain cells where
    c: "ring_inv (fold add ks OrderedSet_init) cells"
      "map snd cells = fold ordered_op (map Add ks) []"
    by (auto simp: e)
  from ring_inv_iter [OF c(1)] c(2)
  show "iter (fold add ks OrderedSet_init) = Some (map Some (rev (remdups (rev ks))))"
    unfolding fold_add_first_occurrences by (metis (no_types, lifting) map_map comp_def map_eq_conv)
next
  assume "k \<in> dom (key_map os)"
  then show "add k os = os" by (rule add_present)
qed

theorem ordered_set_insertion_order_witness:
  "iter (fold exec_op [Add (3::nat), Add 1, Add 3, Add 2, Discard 1, Add 1] OrderedSet_init)
     = Some [Some 3, Some 2, Some 1]
   \<and> iter (fold add [3::nat, 1, 3, 2, 1] OrderedSet_init) = Some [Some 3, Some 1, Some 2]
   \<and> (3::nat) \<in> dom (key_map (fold add [3, 1] OrderedSet_init))
   \<and> add 3 (fold add [3::nat, 1] OrderedSet_init) = fold add [3, 1] OrderedSet_init"
  using
    ordered_set_insertion_order [of "[Add (3::nat), Add 1, Add 3, Add 2, Discard 1, Add 1]"
      "[3, 1, 3, 2, 1]" 3 "fold add [3, 1] OrderedSet_init"]
  by (simp add: iter_def add_def discard_def OrderedSet_init_def iter_from.simps Let_def)

end
